theory Spec2Isabelle
  imports Main "HOL-Library.Word"
begin

unbundle bit_operations_syntax

section \<open>Data model of pthread\_cond\_timedwait.c\<close>

text \<open>
  A pointer to a \<open>struct waiter\<close> is an address (\<open>nat\<close>) or \<open>None\<close> for the null
  pointer. Every call of \<open>pthread_cond_timedwait\<close> owns the node at one address; the
  address also names the call. A pointer to a signaller's local \<open>ref\<close> counter is the
  address that names that call of \<open>__private_cond_signal\<close>.
\<close>

type_synonym addr = nat

text \<open>The anonymous enum of lines 57-61.\<close>

datatype wstate = WAITING | SIGNALED | LEAVING

text \<open>\<open>struct waiter\<close>, lines 29-33. The field \<open>next\<close> is written \<open>next_w\<close>.\<close>

record waiter =
  prev :: "addr option"
  next_w :: "addr option"
  state :: wstate
  barrier :: int
  notify :: "addr option"

text \<open>The value of \<open>struct waiter node = {}\<close> (line 65): all fields zero.\<close>

definition zero_node :: waiter where
  "zero_node = \<lparr>prev = None, next_w = None, state = WAITING, barrier = 0, notify = None\<rparr>"

text \<open>
  The fields of \<open>pthread_cond_t\<close> and \<open>pthread_mutex_t\<close> that the file uses.
  \<open>_m_waiters\<close> is a 32-bit \<open>int\<close>, on which \<open>a_inc\<close> and \<open>a_dec\<close> wrap around.
\<close>

record cond =
  c_head :: "addr option"
  c_tail :: "addr option"
  c_lock :: int
  c_clock :: int

record mutex =
  m_type :: "32 word"
  m_lock :: "32 word"
  m_waiters :: "32 word"

text \<open>\<open>struct timespec\<close> on the LP64 targets: \<open>tv_nsec\<close> is a 64-bit \<open>long\<close>.\<close>

record timespec =
  tv_sec :: "64 word"
  tv_nsec :: "64 word"

type_synonym heap = "addr \<Rightarrow> waiter"

text \<open>
  Constants of the C library headers, which are not part of the sources at hand: the
  error numbers and \<open>INT_MAX\<close>.
\<close>

definition EPERM :: int where "EPERM = 1"
definition EINVAL :: int where "EINVAL = 22"
definition ETIMEDOUT :: int where "ETIMEDOUT = 110"
definition ECANCELED :: int where "ECANCELED = 125"
definition INT_MAX :: "32 word" where "INT_MAX = 0x7fffffff"

datatype cancelstate = PTHREAD_CANCEL_ENABLE | PTHREAD_CANCEL_DISABLE | PTHREAD_CANCEL_MASKED

section \<open>The atomic operations on shared memory\<close>

text \<open>
  Modelled from the spec: \<open>a_cas\<close> is declared in a header that is not among the
  sources. The spec calls it an atomic compare-and-exchange: it stores \<open>s\<close> when the
  cell holds \<open>t\<close>, and returns the value the cell held. The result is the pair of the
  returned value and the new content of the cell.
\<close>

definition a_cas :: "'a \<Rightarrow> 'a \<Rightarrow> 'a \<Rightarrow> 'a \<times> 'a" where
  "a_cas cell t s = (cell, if cell = t then s else cell)"

subsection \<open>Lines 79-89: adding the node at the head of the list\<close>

text \<open>
  \<open>None\<close> is the null-pointer dereference of \<open>node.next->prev\<close> (line 89), reached when
  the tail is set and the head is not.
\<close>

definition enqueue_node :: "addr \<Rightarrow> cond \<times> heap \<Rightarrow> (cond \<times> heap) option" where
  "enqueue_node a ch =
     (let c = fst ch; h = snd ch;
          h1 = h(a := (h a)\<lparr>barrier := 2\<rparr>);
          h2 = h1(a := (h1 a)\<lparr>state := WAITING\<rparr>);
          h3 = h2(a := (h2 a)\<lparr>next_w := c_head c\<rparr>);
          c1 = c\<lparr>c_head := Some a\<rparr>
      in if c_tail c1 = None then Some (c1\<lparr>c_tail := Some a\<rparr>, h3)
         else (case next_w (h3 a) of
                 None \<Rightarrow> None
               | Some b \<Rightarrow> Some (c1, h3(b := (h3 b)\<lparr>prev := Some a\<rparr>))))"

subsection \<open>Lines 130-137: the timed-out waiter removes its node\<close>

definition remove_node :: "addr \<Rightarrow> cond \<times> heap \<Rightarrow> cond \<times> heap" where
  "remove_node a ch =
     (let c = fst ch; h = snd ch;
          ch1 = (if c_head c = Some a then (c\<lparr>c_head := next_w (h a)\<rparr>, h)
                 else (case prev (h a) of
                         Some b \<Rightarrow> (c, h(b := (h b)\<lparr>next_w := next_w (h a)\<rparr>))
                       | None \<Rightarrow> (c, h)));
          c1 = fst ch1; h1 = snd ch1
      in if c_tail c1 = Some a then (c1\<lparr>c_tail := prev (h1 a)\<rparr>, h1)
         else (case next_w (h1 a) of
                 Some d \<Rightarrow> (c1, h1(d := (h1 d)\<lparr>prev := prev (h1 a)\<rparr>))
               | None \<Rightarrow> (c1, h1)))"

subsection \<open>Lines 221-235: the walk of \_\_private\_cond\_signal\<close>

text \<open>
  The locals of \<open>__private_cond_signal\<close>. The counter \<open>ref\<close> is read by other threads
  through \<open>notify\<close>, so it lives in shared memory; \<open>s_seen\<close> is a history variable
  that no statement reads: the nodes the loop has visited, the latest first.
  \<open>n\<close> and \<open>ref\<close> are C \<open>int\<close>s that change by one for each visited node; they are
  unbounded integers here, which is exact for lists of fewer than \<open>2^31\<close> nodes.
\<close>

record walk =
  s_p :: "addr option"
  s_n :: int
  s_first :: "addr option"
  s_ref :: int
  s_seen :: "addr list"

text \<open>One iteration of the loop body at node \<open>x\<close>, with \<open>r\<close> the address of \<open>ref\<close>.\<close>

definition walk_iter :: "addr \<Rightarrow> addr \<Rightarrow> heap \<times> walk \<Rightarrow> heap \<times> walk" where
  "walk_iter r x hw =
     (let h = fst hw; w = snd hw;
          res = a_cas (state (h x)) WAITING SIGNALED;
          h1 = h(x := (h x)\<lparr>state := snd res\<rparr>)
      in if fst res \<noteq> WAITING
         then (let h2 = h1(x := (h1 x)\<lparr>notify := Some r\<rparr>)
               in (h2, w\<lparr>s_p := prev (h2 x), s_ref := s_ref w + 1, s_seen := x # s_seen w\<rparr>))
         else (h1, w\<lparr>s_p := prev (h1 x), s_n := s_n w - 1,
                     s_first := (if s_first w = None then Some x else s_first w),
                     s_seen := x # s_seen w\<rparr>))"

text \<open>
  The loop \<open>for (p = c->_c_tail; n && p; p = p->prev)\<close>. It does not return on a cyclic
  chain of \<open>prev\<close> pointers, which is the value \<open>None\<close>.
\<close>

partial_function (option) signal_walk :: "addr \<Rightarrow> heap \<times> walk \<Rightarrow> (heap \<times> walk) option" where
  "signal_walk r hw =
     (case s_p (snd hw) of
        None \<Rightarrow> Some hw
      | Some x \<Rightarrow> if s_n (snd hw) = 0 then Some hw else signal_walk r (walk_iter r x hw))"

declare signal_walk.simps [code]

subsection \<open>Lines 237-244: splitting the list\<close>

definition split_list :: "addr option \<Rightarrow> cond \<times> heap \<Rightarrow> cond \<times> heap" where
  "split_list p ch =
     (let c = fst ch; h = snd ch;
          ch1 = (case p of
                   Some x \<Rightarrow>
                     (let h1 = (case next_w (h x) of
                                  Some y \<Rightarrow> h(y := (h y)\<lparr>prev := None\<rparr>)
                                | None \<Rightarrow> h)
                      in (c, h1(x := (h1 x)\<lparr>next_w := None\<rparr>)))
                 | None \<Rightarrow> (c\<lparr>c_head := None\<rparr>, h))
      in ((fst ch1)\<lparr>c_tail := p\<rparr>, snd ch1))"

section \<open>Well-formed waiter lists\<close>

text \<open>
  \<open>dll h pv xs nx\<close>: the nodes \<open>xs\<close> are linked in this order by \<open>next\<close> and in the
  reverse order by \<open>prev\<close>; \<open>pv\<close> is the \<open>prev\<close> of the first and \<open>nx\<close> the \<open>next\<close>
  of the last.
\<close>

fun dll :: "heap \<Rightarrow> addr option \<Rightarrow> addr list \<Rightarrow> addr option \<Rightarrow> bool" where
  "dll h pv [] nx = True"
| "dll h pv (x # xs) nx =
     (prev (h x) = pv \<and> next_w (h x) = (case xs of [] \<Rightarrow> nx | y # _ \<Rightarrow> Some y)
      \<and> dll h (Some x) xs nx)"

text \<open>
  \<open>wf_queue c h xs\<close>: the list attached to the condition variable holds exactly the
  nodes \<open>xs\<close>, from the head (the latest waiter) to the tail (the oldest), without
  repetition, so that no walk along it can cycle.
\<close>

definition wf_queue :: "cond \<Rightarrow> heap \<Rightarrow> addr list \<Rightarrow> bool" where
  "wf_queue c h xs =
     (distinct xs \<and> dll h None xs None
      \<and> c_head c = (if xs = [] then None else Some (hd xs))
      \<and> c_tail c = (if xs = [] then None else Some (last xs)))"

text \<open>
  \<open>bchain h p ys\<close>: following \<open>prev\<close> from the pointer \<open>p\<close> visits the nodes
  \<open>ys\<close> in this order and then reaches the null pointer.
\<close>

fun bchain :: "heap \<Rightarrow> addr option \<Rightarrow> addr list \<Rightarrow> bool" where
  "bchain h p [] = (p = None)"
| "bchain h p (y # ys) = (p = Some y \<and> bchain h (prev (h y)) ys)"

text \<open>The loop of lines 221-235 along a given list of nodes, the oldest first.\<close>

fun walk_list :: "addr \<Rightarrow> addr list \<Rightarrow> heap \<times> walk \<Rightarrow> heap \<times> walk" where
  "walk_list r [] hw = hw"
| "walk_list r (y # ys) hw = (if s_n (snd hw) = 0 then hw else walk_list r ys (walk_iter r y hw))"

text \<open>
  The nodes that the loop visits when it starts with the count \<open>n\<close> at the first
  node of the list: it goes on until it has met \<open>n\<close> nodes in the state \<open>WAITING\<close>.
\<close>

fun visited :: "int \<Rightarrow> heap \<Rightarrow> addr list \<Rightarrow> addr list" where
  "visited n h [] = []"
| "visited n h (y # ys) =
     (if n = 0 then [] else y # visited (if state (h y) = WAITING then n - 1 else n) h ys)"

text \<open>
  The spec's words for the wake order: of the waiters attached, in the order of their
  insertion (the list \<open>xs\<close> runs from the latest to the oldest), the \<open>n\<close> oldest
  ones that are still \<open>WAITING\<close>; all of them for a broadcast, which passes \<open>n = -1\<close>.
\<close>

definition oldest_waiting :: "int \<Rightarrow> heap \<Rightarrow> addr list \<Rightarrow> addr list" where
  "oldest_waiting n h xs =
     (let ws = filter (\<lambda>x. state (h x) = WAITING) (rev xs)
      in if n < 0 then ws else take (nat n) ws)"

section \<open>The two functions as threads\<close>

subsection \<open>Lines 69-73: the checks of the arguments\<close>

text \<open>
  \<open>tid\<close> is the value of \<open>__thread_get_tid()\<close>; \<open>ts\<close> is \<open>None\<close> for a null
  pointer. The comparison \<open>ts->tv_nsec >= 1000000000UL\<close> converts the \<open>long\<close> to
  \<open>unsigned long\<close>, so it is the unsigned order of the 64-bit word.
\<close>

definition tw_validate :: "mutex \<Rightarrow> 32 word \<Rightarrow> timespec option \<Rightarrow> int option" where
  "tw_validate m tid ts =
     (if (m_type m AND 15) \<noteq> 0 \<and> (m_lock m AND INT_MAX) \<noteq> tid then Some EPERM
      else if (case ts of None \<Rightarrow> False | Some t \<Rightarrow> 1000000000 \<le> tv_nsec t) then Some EINVAL
      else None)"

subsection \<open>Program points and locals\<close>

text \<open>
  A waiter is at the line it executes next. \<open>W_ret e\<close>: the call has returned \<open>e\<close>;
  \<open>W_cancelled\<close>: \<open>__pthread_testcancel\<close> has unwound the thread; \<open>W_fault\<close>: the
  thread has dereferenced a null pointer.
\<close>

datatype wpc =
  W69 | W77 | W93 | W107 | W111 | W127 | W150 | W162 | W168 | W186 | W191 | W200
  | W_ret int | W_cancelled | W_fault

text \<open>
  The locals \<open>e\<close>, \<open>oldstate\<close> and \<open>cs\<close> of \<open>pthread_cond_timedwait\<close>, and the
  cancel state of the calling thread, which the thread library keeps.
\<close>

record wloc =
  w_pc :: wpc
  w_e :: int
  w_oldstate :: wstate
  w_cs :: cancelstate
  w_cancel :: cancelstate

datatype spc = S220 | S221 | S250 | S254 | S_ret

record sloc =
  s_pc :: spc
  s_walk :: walk

text \<open>The futex calls that wake or move another thread, as a log of the calls made.\<close>

datatype floc = F_barrier addr | F_ref addr | F_mlock

datatype fop = Wake floc int | Requeue floc int int floc int

text \<open>
  The shared memory and the threads. \<open>attached\<close> is a history variable that no
  statement reads: the nodes that their waiters have added and that neither their
  waiters nor a signaller have taken off since, the latest first.
\<close>

record sys =
  cv :: cond
  nodes :: heap
  mtx :: mutex
  wthr :: "addr \<Rightarrow> wloc"
  sthr :: "addr \<Rightarrow> sloc"
  futex_log :: "fop list"
  attached :: "addr list"

definition set_w :: "addr \<Rightarrow> (wloc \<Rightarrow> wloc) \<Rightarrow> sys \<Rightarrow> sys" where
  "set_w a f s = s\<lparr>wthr := (wthr s)(a := f (wthr s a))\<rparr>"

definition set_s :: "addr \<Rightarrow> (sloc \<Rightarrow> sloc) \<Rightarrow> sys \<Rightarrow> sys" where
  "set_s r f s = s\<lparr>sthr := (sthr s)(r := f (sthr s r))\<rparr>"

definition set_node :: "addr \<Rightarrow> (waiter \<Rightarrow> waiter) \<Rightarrow> sys \<Rightarrow> sys" where
  "set_node a f s = s\<lparr>nodes := (nodes s)(a := f (nodes s a))\<rparr>"

definition goto :: "addr \<Rightarrow> wpc \<Rightarrow> sys \<Rightarrow> sys" where
  "goto a l s = set_w a (\<lambda>t. t\<lparr>w_pc := l\<rparr>) s"

subsection \<open>The steps of pthread\_cond\_timedwait\<close>

text \<open>
  Each step is one atomic action of the thread whose node is \<open>a\<close>; it is \<open>None\<close> where
  the thread is not at that line or is blocked there. The sections under \<open>_c_lock\<close>
  touch only memory that the lock protects, so each is a single step that needs the
  lock to be free (\<open>lock\<close> returns only after it has changed the word from 0) and
  leaves it free.

  Modelled from the spec: \<open>__pthread_testcancel\<close>, \<open>__pthread_setcancelstate\<close>,
  \<open>pthread_mutex_lock\<close>, \<open>pthread_mutex_unlock\<close> and \<open>__timedwait_cp\<close> are not
  among the sources. \<open>testCancellation\<close> unwinds the thread when a request is pending
  (\<open>pend\<close>) and the cancel state is enabled; \<open>setCancelState\<close> stores the new state
  and gives back the previous one; the mutex functions change the lock word (to \<open>lk\<close>)
  and \<open>lock\<close> returns a status (\<open>tmp\<close>); the wait returns a status (\<open>e\<close>).
\<close>

text \<open>Lines 69-75.\<close>

definition w_enter ::
    "addr \<Rightarrow> 32 word \<Rightarrow> timespec option \<Rightarrow> cancelstate \<Rightarrow> bool \<Rightarrow> sys \<Rightarrow> sys option" where
  "w_enter a tid ts cst pend s =
     (if w_pc (wthr s a) \<noteq> W69 then None
      else (case tw_validate (mtx s) tid ts of
              Some err \<Rightarrow> Some (goto a (W_ret err) s)
            | None \<Rightarrow>
                if pend \<and> cst = PTHREAD_CANCEL_ENABLE then Some (goto a W_cancelled s)
                else Some (set_w a (\<lambda>t. t\<lparr>w_pc := W77, w_cancel := cst\<rparr>) s)))"

text \<open>Lines 77-91.\<close>

definition w_enqueue :: "addr \<Rightarrow> sys \<Rightarrow> sys option" where
  "w_enqueue a s =
     (if w_pc (wthr s a) \<noteq> W77 \<or> c_lock (cv s) \<noteq> 0 then None
      else (case enqueue_node a (cv s, nodes s) of
              None \<Rightarrow> Some (goto a W_fault s)
            | Some ch \<Rightarrow>
                Some (goto a W93 (s\<lparr>cv := fst ch, nodes := snd ch, attached := a # attached s\<rparr>))))"

text \<open>Lines 93-97.\<close>

definition w_munlock :: "addr \<Rightarrow> 32 word \<Rightarrow> sys \<Rightarrow> sys option" where
  "w_munlock a lk s =
     (if w_pc (wthr s a) \<noteq> W93 then None
      else Some (set_w a (\<lambda>t. t\<lparr>w_pc := W107, w_cs := w_cancel t,
                   w_cancel := (if w_cancel t = PTHREAD_CANCEL_DISABLE
                                then PTHREAD_CANCEL_DISABLE else PTHREAD_CANCEL_MASKED)\<rparr>)
                 (s\<lparr>mtx := (mtx s)\<lparr>m_lock := lk\<rparr>\<rparr>)))"

text \<open>
  Lines 107-109: the loop is left with the status \<open>e\<close> of the last wait, once \<open>e\<close> is
  not 0 or the barrier is no longer \<open>seq\<close>, which is 2.
\<close>

definition w_wake :: "addr \<Rightarrow> int \<Rightarrow> sys \<Rightarrow> sys option" where
  "w_wake a e s =
     (if w_pc (wthr s a) \<noteq> W107 \<or> (barrier (nodes s a) = 2 \<and> e = 0) then None
      else Some (set_w a (\<lambda>t. t\<lparr>w_pc := W111, w_e := e\<rparr>) s))"

text \<open>Lines 111-113.\<close>

definition w_cas :: "addr \<Rightarrow> sys \<Rightarrow> sys option" where
  "w_cas a s =
     (if w_pc (wthr s a) \<noteq> W111 then None
      else (let res = a_cas (state (nodes s a)) WAITING LEAVING
            in Some (set_w a (\<lambda>t. t\<lparr>w_pc := (if fst res = WAITING then W127 else W162),
                                       w_oldstate := fst res\<rparr>)
                      (set_node a (\<lambda>nd. nd\<lparr>state := snd res\<rparr>) s))))"

text \<open>Lines 127-139.\<close>

definition w_remove :: "addr \<Rightarrow> sys \<Rightarrow> sys option" where
  "w_remove a s =
     (if w_pc (wthr s a) \<noteq> W127 \<or> c_lock (cv s) \<noteq> 0 then None
      else (let ch = remove_node a (cv s, nodes s)
            in Some (goto a W150
                      (s\<lparr>cv := fst ch, nodes := snd ch, attached := remove1 a (attached s)\<rparr>))))"

text \<open>Lines 150-153: \<open>a_fetch_add\<close> returns the value before the addition.\<close>

definition w_notify :: "addr \<Rightarrow> sys \<Rightarrow> sys option" where
  "w_notify a s =
     (if w_pc (wthr s a) \<noteq> W150 then None
      else (case notify (nodes s a) of
              None \<Rightarrow> Some (goto a W168 s)
            | Some r \<Rightarrow>
                (let old = s_ref (s_walk (sthr s r));
                     s1 = set_s r (\<lambda>t. t\<lparr>s_walk := (s_walk t)\<lparr>s_ref := old - 1\<rparr>\<rparr>) s;
                     s2 = (if old = 1 then s1\<lparr>futex_log := futex_log s1 @ [Wake (F_ref r) 1]\<rparr>
                           else s1)
                 in Some (goto a W168 s2))))"

text \<open>
  Line 162: \<open>lock(&node.barrier)\<close> returns once one of its \<open>a_cas\<close> from 0 has
  succeeded, to 1 on the first attempt and to 2 on a later one (\<open>v\<close>).
\<close>

definition w_barrier :: "addr \<Rightarrow> int \<Rightarrow> sys \<Rightarrow> sys option" where
  "w_barrier a v s =
     (if w_pc (wthr s a) \<noteq> W162 \<or> barrier (nodes s a) \<noteq> 0 \<or> (v \<noteq> 1 \<and> v \<noteq> 2) then None
      else Some (goto a W168 (set_node a (\<lambda>nd. nd\<lparr>barrier := v\<rparr>) s)))"

text \<open>Lines 168-172.\<close>

definition w_mlock :: "addr \<Rightarrow> int \<Rightarrow> 32 word \<Rightarrow> sys \<Rightarrow> sys option" where
  "w_mlock a tmp lk s =
     (if w_pc (wthr s a) \<noteq> W168 then None
      else Some (set_w a (\<lambda>t. t\<lparr>w_pc := (if w_oldstate t = WAITING then W200 else W186),
                                 w_e := (if tmp \<noteq> 0 then tmp else w_e t)\<rparr>)
                 (s\<lparr>mtx := (mtx s)\<lparr>m_lock := lk\<rparr>\<rparr>)))"

text \<open>Lines 186-187.\<close>

definition w_inc :: "addr \<Rightarrow> sys \<Rightarrow> sys option" where
  "w_inc a s =
     (if w_pc (wthr s a) \<noteq> W186 then None
      else Some (goto a W191
                  (if next_w (nodes s a) = None
                   then s\<lparr>mtx := (mtx s)\<lparr>m_waiters := m_waiters (mtx s) + 1\<rparr>\<rparr>
                   else s)))"

text \<open>
  Lines 191-198. \<open>unlock_requeue\<close> (lines 51-55) stores 0 in the barrier of the
  previous node and calls \<open>_mx_futex_requeue\<close> with wake count 0, futex value 0 and
  requeue count 1 from that barrier to the lock word of the mutex.
\<close>

definition w_next :: "addr \<Rightarrow> sys \<Rightarrow> sys option" where
  "w_next a s =
     (if w_pc (wthr s a) \<noteq> W191 then None
      else (let s1 = (case prev (nodes s a) of
                        Some b \<Rightarrow>
                          (set_node b (\<lambda>nd. nd\<lparr>barrier := 0\<rparr>) s)
                            \<lparr>futex_log := futex_log s @ [Requeue (F_barrier b) 0 0 F_mlock 1]\<rparr>
                      | None \<Rightarrow> s\<lparr>mtx := (mtx s)\<lparr>m_waiters := m_waiters (mtx s) - 1\<rparr>\<rparr>)
            in Some (set_w a (\<lambda>t. t\<lparr>w_pc := W200,
                                       w_e := (if w_e t = ECANCELED then 0 else w_e t)\<rparr>) s1)))"

text \<open>Lines 200-208.\<close>

definition w_done :: "addr \<Rightarrow> bool \<Rightarrow> sys \<Rightarrow> sys option" where
  "w_done a pend s =
     (if w_pc (wthr s a) \<noteq> W200 then None
      else Some (set_w a (\<lambda>t.
             if w_e t = ECANCELED
             then (if pend \<and> w_cs t = PTHREAD_CANCEL_ENABLE
                   then t\<lparr>w_pc := W_cancelled, w_cancel := w_cs t\<rparr>
                   else t\<lparr>w_pc := W_ret (w_e t), w_cancel := PTHREAD_CANCEL_DISABLE\<rparr>)
             else t\<lparr>w_pc := W_ret (w_e t), w_cancel := w_cs t\<rparr>) s))"

subsection \<open>The steps of \_\_private\_cond\_signal\<close>

text \<open>Lines 216-221: the lock is taken and the loop initialised.\<close>

definition s_lock :: "addr \<Rightarrow> int \<Rightarrow> sys \<Rightarrow> sys option" where
  "s_lock r n s =
     (if s_pc (sthr s r) \<noteq> S220 \<or> c_lock (cv s) \<noteq> 0 then None
      else Some (set_s r (\<lambda>t. t\<lparr>s_pc := S221,
                    s_walk := \<lparr>s_p = c_tail (cv s), s_n = n, s_first = None, s_ref = 0,
                               s_seen = []\<rparr>\<rparr>)
                 (s\<lparr>cv := (cv s)\<lparr>c_lock := 1\<rparr>\<rparr>)))"

text \<open>Lines 221-235: one iteration of the loop.\<close>

definition s_iter :: "addr \<Rightarrow> sys \<Rightarrow> sys option" where
  "s_iter r s =
     (if s_pc (sthr s r) \<noteq> S221 \<or> s_n (s_walk (sthr s r)) = 0 then None
      else (case s_p (s_walk (sthr s r)) of
              None \<Rightarrow> None
            | Some x \<Rightarrow>
                (let hw = walk_iter r x (nodes s, s_walk (sthr s r))
                 in Some (set_s r (\<lambda>t. t\<lparr>s_walk := snd hw\<rparr>) (s\<lparr>nodes := fst hw\<rparr>)))))"

text \<open>Lines 221 and 236-245: the loop is left, the list split and the lock released.\<close>

definition s_split :: "addr \<Rightarrow> sys \<Rightarrow> sys option" where
  "s_split r s =
     (if s_pc (sthr s r) \<noteq> S221
         \<or> (s_n (s_walk (sthr s r)) \<noteq> 0 \<and> s_p (s_walk (sthr s r)) \<noteq> None) then None
      else (let ch = split_list (s_p (s_walk (sthr s r))) (cv s, nodes s)
            in Some (set_s r (\<lambda>t. t\<lparr>s_pc := S250\<rparr>)
                      (s\<lparr>cv := (fst ch)\<lparr>c_lock := 0\<rparr>, nodes := snd ch,
                         attached := filter (\<lambda>x. x \<notin> set (s_seen (s_walk (sthr s r))))
                                       (attached s)\<rparr>))))"

text \<open>Lines 250-251: one reading of \<open>ref\<close>; the loop is left when it is 0.\<close>

definition s_wait :: "addr \<Rightarrow> sys \<Rightarrow> sys option" where
  "s_wait r s =
     (if s_pc (sthr s r) \<noteq> S250 then None
      else if s_ref (s_walk (sthr s r)) = 0 then Some (set_s r (\<lambda>t. t\<lparr>s_pc := S254\<rparr>) s)
      else Some s)"

text \<open>
  Lines 254-255: \<open>unlock\<close> (lines 46-49) swaps 0 into the barrier and wakes one thread
  when it held 2.
\<close>

definition s_unlock :: "addr \<Rightarrow> sys \<Rightarrow> sys option" where
  "s_unlock r s =
     (if s_pc (sthr s r) \<noteq> S254 then None
      else (let s1 = (case s_first (s_walk (sthr s r)) of
                        None \<Rightarrow> s
                      | Some f \<Rightarrow>
                          (let s2 = set_node f (\<lambda>nd. nd\<lparr>barrier := 0\<rparr>) s
                           in if barrier (nodes s f) = 2
                              then s2\<lparr>futex_log := futex_log s @ [Wake (F_barrier f) 1]\<rparr>
                              else s2))
            in Some (set_s r (\<lambda>t. t\<lparr>s_pc := S_ret\<rparr>) s1)))"

subsection \<open>Interleavings\<close>

datatype action =
    W_enter addr "32 word" "timespec option" cancelstate bool
  | W_enqueue addr
  | W_munlock addr "32 word"
  | W_wake addr int
  | W_cas addr
  | W_remove addr
  | W_notify addr
  | W_barrier addr int
  | W_mlock addr int "32 word"
  | W_inc addr
  | W_next addr
  | W_done addr bool
  | S_lock addr int
  | S_iter addr
  | S_split addr
  | S_wait addr
  | S_unlock addr

fun step :: "action \<Rightarrow> sys \<Rightarrow> sys option" where
  "step (W_enter a tid ts cst pend) s = w_enter a tid ts cst pend s"
| "step (W_enqueue a) s = w_enqueue a s"
| "step (W_munlock a lk) s = w_munlock a lk s"
| "step (W_wake a e) s = w_wake a e s"
| "step (W_cas a) s = w_cas a s"
| "step (W_remove a) s = w_remove a s"
| "step (W_notify a) s = w_notify a s"
| "step (W_barrier a v) s = w_barrier a v s"
| "step (W_mlock a tmp lk) s = w_mlock a tmp lk s"
| "step (W_inc a) s = w_inc a s"
| "step (W_next a) s = w_next a s"
| "step (W_done a pend) s = w_done a pend s"
| "step (S_lock r n) s = s_lock r n s"
| "step (S_iter r) s = s_iter r s"
| "step (S_split r) s = s_split r s"
| "step (S_wait r) s = s_wait r s"
| "step (S_unlock r) s = s_unlock r s"

text \<open>The waiter, or the signaller, that takes the action.\<close>

fun wactor :: "action \<Rightarrow> addr option" where
  "wactor (W_enter a tid ts cst pend) = Some a"
| "wactor (W_enqueue a) = Some a"
| "wactor (W_munlock a lk) = Some a"
| "wactor (W_wake a e) = Some a"
| "wactor (W_cas a) = Some a"
| "wactor (W_remove a) = Some a"
| "wactor (W_notify a) = Some a"
| "wactor (W_barrier a v) = Some a"
| "wactor (W_mlock a tmp lk) = Some a"
| "wactor (W_inc a) = Some a"
| "wactor (W_next a) = Some a"
| "wactor (W_done a pend) = Some a"
| "wactor _ = None"

fun sactor :: "action \<Rightarrow> addr option" where
  "sactor (S_lock r n) = Some r"
| "sactor (S_iter r) = Some r"
| "sactor (S_split r) = Some r"
| "sactor (S_wait r) = Some r"
| "sactor (S_unlock r) = Some r"
| "sactor _ = None"

text \<open>
  A schedule is the list of the actions in the order they take place; \<open>run\<close> is
  \<open>None\<close> when an action of the schedule cannot take place.
\<close>

fun run :: "action list \<Rightarrow> sys \<Rightarrow> sys option" where
  "run [] s = Some s"
| "run (act # acts) s = (case step act s of None \<Rightarrow> None | Some s' \<Rightarrow> run acts s')"

text \<open>
  The initial state: no call has begun, the list is empty and the lock free. The node
  of every call to come holds the zeros of its initialiser, and the cancel state of
  every thread is enabled until \<open>W_enter\<close> records the real one.
\<close>

definition init :: "mutex \<Rightarrow> int \<Rightarrow> sys" where
  "init m clk =
     \<lparr>cv = \<lparr>c_head = None, c_tail = None, c_lock = 0, c_clock = clk\<rparr>,
      nodes = (\<lambda>_. zero_node),
      mtx = m,
      wthr = (\<lambda>_. \<lparr>w_pc = W69, w_e = 0, w_oldstate = WAITING,
                    w_cs = PTHREAD_CANCEL_ENABLE, w_cancel = PTHREAD_CANCEL_ENABLE\<rparr>),
      sthr = (\<lambda>_. \<lparr>s_pc = S220,
                    s_walk = \<lparr>s_p = None, s_n = 0, s_first = None, s_ref = 0, s_seen = []\<rparr>\<rparr>),
      futex_log = [],
      attached = []\<rparr>"

section \<open>Concrete inputs\<close>

text \<open>An error-checking mutex held by thread 5, and a normal mutex.\<close>

definition m_errorcheck :: mutex where
  "m_errorcheck = \<lparr>m_type = 2, m_lock = 5, m_waiters = 0\<rparr>"

definition m_normal :: mutex where
  "m_normal = \<lparr>m_type = 0, m_lock = 0, m_waiters = 0\<rparr>"

text \<open>
  A schedule in which the waiter 1 waits on a normal mutex, the signaller 9 signals it,
  and the wait of the waiter then returns \<open>e\<close>; and the state it leads to.
\<close>

definition sched_signaled :: "int \<Rightarrow> action list" where
  "sched_signaled e =
     [W_enter 1 7 None PTHREAD_CANCEL_ENABLE False, W_enqueue 1, W_munlock 1 0,
      S_lock 9 1, S_iter 9, S_split 9, S_wait 9, S_unlock 9, W_wake 1 e]"

definition st_signaled :: "int \<Rightarrow> sys" where
  "st_signaled e = the (run (sched_signaled e) (init m_normal 0))"

text \<open>
  The rest of the call of a signalled waiter, with \<open>tmp\<close> the status of
  \<open>pthread_mutex_lock\<close>.
\<close>

definition sched_exit :: "int \<Rightarrow> action list" where
  "sched_exit tmp = [W_cas 1, W_barrier 1 1, W_mlock 1 tmp 7, W_inc 1, W_next 1, W_done 1 True]"

text \<open>
  A schedule in which the wait of the waiter 1 times out before any signal, and the
  state it leads to.
\<close>

definition sched_timeout :: "action list" where
  "sched_timeout =
     [W_enter 1 7 None PTHREAD_CANCEL_ENABLE False, W_enqueue 1, W_munlock 1 0,
      W_wake 1 ETIMEDOUT]"

definition st_timeout :: sys where
  "st_timeout = the (run sched_timeout (init m_normal 0))"

text \<open>
  A list of three waiters, 1 the oldest and 3 the latest, in which the wait of the
  waiter 1 has timed out (its node is \<open>LEAVING\<close> and not yet removed).
\<close>

definition heap3 :: heap where
  "heap3 = (\<lambda>_. zero_node)
     (1 := \<lparr>prev = Some 2, next_w = None, state = LEAVING, barrier = 2, notify = None\<rparr>,
      2 := \<lparr>prev = Some 3, next_w = Some 1, state = WAITING, barrier = 2, notify = None\<rparr>,
      3 := \<lparr>prev = None, next_w = Some 2, state = WAITING, barrier = 2, notify = None\<rparr>)"

definition cond3 :: cond where
  "cond3 = \<lparr>c_head = Some 3, c_tail = Some 1, c_lock = 1, c_clock = 0\<rparr>"

text \<open>
  A schedule of a race: the wait of the waiter 1 times out and the waiter wins line
  111; before it takes the lock, the signaller 9 walks the list, finds the node
  \<open>LEAVING\<close>, splits the list and waits on its counter, until the waiter has removed
  its node and decremented the counter. The waiter 2 joins the list in between.
\<close>

definition sched_race :: "action list" where
  "sched_race =
     [W_enter 1 7 None PTHREAD_CANCEL_ENABLE False, W_enqueue 1, W_munlock 1 0,
      W_wake 1 ETIMEDOUT, W_cas 1,
      S_lock 9 1, S_iter 9, S_split 9, S_wait 9,
      W_enter 2 8 None PTHREAD_CANCEL_ENABLE False, W_enqueue 2,
      W_remove 1, W_notify 1, S_wait 9, S_unlock 9]"

text \<open>
  A state in which the waiter 1 is at line 111 with its node \<open>WAITING\<close> and the
  signaller 9 is in the loop with \<open>p\<close> at that node.
\<close>

definition sched_both :: "action list" where
  "sched_both =
     [W_enter 1 7 None PTHREAD_CANCEL_ENABLE False, W_enqueue 1, W_munlock 1 0,
      W_wake 1 ETIMEDOUT, S_lock 9 1]"

definition st_both :: sys where
  "st_both = the (run sched_both (init m_normal 0))"

text \<open>
  Two waiters on a normal mutex, 1 the older, and a broadcast by the signaller 9: both
  nodes are \<open>SIGNALED\<close> and split off as one chain, the barrier of the node 1 is
  released, and the waiter 1 has passed its barrier and is at line 168. Then the rest
  of the two calls, each \<open>pthread_mutex_lock\<close> succeeding.
\<close>

definition sched_chain :: "action list" where
  "sched_chain =
     [W_enter 1 7 None PTHREAD_CANCEL_ENABLE False, W_enqueue 1, W_munlock 1 0,
      W_enter 2 8 None PTHREAD_CANCEL_ENABLE False, W_enqueue 2, W_munlock 2 0,
      S_lock 9 (- 1), S_iter 9, S_iter 9, S_split 9, S_wait 9, S_unlock 9,
      W_wake 1 0, W_cas 1, W_barrier 1 1]"

definition st_chain :: sys where
  "st_chain = the (run sched_chain (init m_normal 0))"

definition sched_chain_exit :: "action list" where
  "sched_chain_exit =
     [W_mlock 1 0 7, W_inc 1, W_next 1, W_done 1 False,
      W_wake 2 0, W_cas 2, W_barrier 2 1, W_mlock 2 0 8, W_inc 2, W_next 2, W_done 2 False]"

section \<open>Predicates used in the proofs\<close>

text \<open>
  How far a waiter is on the path from line 168 to its return when its node was not
  \<open>WAITING\<close> at line 111: 0 at line 168, 1 at line 186, 2 at line 191, 3 at line
  200, 4 once the call is over.
\<close>

definition sig_stage :: "wloc \<Rightarrow> nat option" where
  "sig_stage t =
     (case w_pc t of
        W168 \<Rightarrow> if w_oldstate t = WAITING then None else Some 0
      | W186 \<Rightarrow> Some 1
      | W191 \<Rightarrow> Some 2
      | W200 \<Rightarrow> Some 3
      | W_ret v \<Rightarrow> Some 4
      | W_cancelled \<Rightarrow> Some 4
      | _ \<Rightarrow> None)"

text \<open>
  What holds of the waiter \<open>a\<close> from line 111 on, once its wait has returned
  \<open>ECANCELED\<close> and its node is \<open>SIGNALED\<close>; \<open>g\<close> says that no
  \<open>pthread_mutex_lock\<close> of this waiter has failed so far.
\<close>

definition sig_cancel_inv :: "addr \<Rightarrow> bool \<Rightarrow> sys \<Rightarrow> bool" where
  "sig_cancel_inv a g s =
     (case w_pc (wthr s a) of
        W111 \<Rightarrow> state (nodes s a) = SIGNALED \<and> w_e (wthr s a) = ECANCELED
      | W162 \<Rightarrow> w_oldstate (wthr s a) \<noteq> WAITING \<and> w_e (wthr s a) = ECANCELED
      | W168 \<Rightarrow> w_oldstate (wthr s a) \<noteq> WAITING \<and> w_e (wthr s a) = ECANCELED
      | W186 \<Rightarrow> (g \<longrightarrow> w_e (wthr s a) = ECANCELED)
      | W191 \<Rightarrow> (g \<longrightarrow> w_e (wthr s a) = ECANCELED)
      | W200 \<Rightarrow> w_e (wthr s a) \<noteq> ECANCELED \<and> (g \<longrightarrow> w_e (wthr s a) = 0)
      | W_ret v \<Rightarrow> v \<noteq> ECANCELED \<and> (g \<longrightarrow> v = 0)
      | _ \<Rightarrow> False)"

text \<open>Every \<open>pthread_mutex_lock\<close> of the waiter \<open>a\<close> in the schedule returns 0.\<close>

definition mlock_ok :: "addr \<Rightarrow> action list \<Rightarrow> bool" where
  "mlock_ok a sched = (\<forall>tmp lk. W_mlock a tmp lk \<in> set sched \<longrightarrow> tmp = 0)"

text \<open>
  What holds of the waiter \<open>a\<close> after a \<open>pthread_mutex_lock\<close> of its own has
  returned the error \<open>tmp\<close>.
\<close>

definition mlock_err_inv :: "addr \<Rightarrow> int \<Rightarrow> sys \<Rightarrow> bool" where
  "mlock_err_inv a tmp s =
     (case w_pc (wthr s a) of
        W186 \<Rightarrow> w_e (wthr s a) = tmp
      | W191 \<Rightarrow> w_e (wthr s a) = tmp
      | W200 \<Rightarrow> w_e (wthr s a) = tmp
      | W_ret v \<Rightarrow> v = tmp
      | _ \<Rightarrow> False)"

text \<open>
  The waiter is on the path of the timeout: it has won the exchange of line 111 and
  has not returned yet.
\<close>

definition timeout_path :: "wloc \<Rightarrow> bool" where
  "timeout_path t =
     ((w_pc t = W127 \<or> w_pc t = W150 \<or> w_pc t = W168 \<or> w_pc t = W200)
      \<and> w_oldstate t = WAITING)"

section \<open>The invariant of the interleavings\<close>

text \<open>The list attached to the condition variable holds the attached nodes.\<close>

definition inv_list :: "sys \<Rightarrow> bool" where
  "inv_list s = wf_queue (cv s) (nodes s) (attached s)"

text \<open>At most one signaller is in the loop, and it holds the lock.\<close>

definition inv_lock :: "sys \<Rightarrow> bool" where
  "inv_lock s =
     ((\<forall>r. s_pc (sthr s r) = S221 \<longrightarrow> c_lock (cv s) \<noteq> 0)
      \<and> (\<forall>r r'. s_pc (sthr s r) = S221 \<and> s_pc (sthr s r') = S221 \<longrightarrow> r = r'))"

text \<open>
  The signaller in the loop has visited the tail end of the list, and \<open>p\<close> is the
  node before it; a signaller out of the loop has visited no attached node.
\<close>

definition inv_walk :: "sys \<Rightarrow> bool" where
  "inv_walk s =
     (\<forall>r. (s_pc (sthr s r) = S221 \<longrightarrow>
             (\<exists>pre. attached s = pre @ s_seen (s_walk (sthr s r))
                \<and> s_p (s_walk (sthr s r)) = (if pre = [] then None else Some (last pre))))
         \<and> (s_pc (sthr s r) \<noteq> S221 \<longrightarrow>
               set (s_seen (s_walk (sthr s r))) \<inter> set (attached s) = {})
         \<and> (s_pc (sthr s r) = S220 \<longrightarrow> s_seen (s_walk (sthr s r)) = []))"

text \<open>
  A visited node is \<open>SIGNALED\<close>, or it is \<open>LEAVING\<close> and its \<open>notify\<close> points to the
  counter of the signaller that visited it; and \<open>notify\<close> is set on such nodes only.
\<close>

definition inv_seen :: "sys \<Rightarrow> bool" where
  "inv_seen s =
     ((\<forall>r x. x \<in> set (s_seen (s_walk (sthr s r))) \<longrightarrow>
          state (nodes s x) = SIGNALED
          \<or> (state (nodes s x) = LEAVING \<and> notify (nodes s x) = Some r))
      \<and> (\<forall>a r. notify (nodes s a) = Some r \<longrightarrow>
            state (nodes s a) = LEAVING \<and> a \<in> set (s_seen (s_walk (sthr s r))))
      \<and> (\<forall>a. a \<in> set (attached s) \<and> state (nodes s a) = SIGNALED \<longrightarrow>
            (\<exists>r. s_pc (sthr s r) = S221 \<and> a \<in> set (s_seen (s_walk (sthr s r))))))"

text \<open>
  The state of the node of a waiter, by the line the waiter is at. Before line 77 the
  node holds its initial values and is not attached; from line 93 to line 111 it is
  \<open>WAITING\<close> and attached, or \<open>SIGNALED\<close>; on the path of the timeout it is
  \<open>LEAVING\<close>, and off the list once lines 127-139 are done; on the other path it is
  \<open>SIGNALED\<close>; \<open>oldstate\<close> is the state that line 111 found. A call that has
  returned from line 70 or 73, or was cancelled at line 75, has left its node as it
  was.
\<close>

definition inv_node :: "sys \<Rightarrow> addr \<Rightarrow> bool" where
  "inv_node s a =
     (let nd = nodes s a; t = wthr s a; att = (a \<in> set (attached s)) in
      case w_pc t of
        W69 \<Rightarrow> state nd = WAITING \<and> prev nd = None \<and> notify nd = None \<and> \<not> att
      | W77 \<Rightarrow> state nd = WAITING \<and> prev nd = None \<and> notify nd = None \<and> \<not> att
      | W93 \<Rightarrow> (state nd = WAITING \<and> att) \<or> state nd = SIGNALED
      | W107 \<Rightarrow> (state nd = WAITING \<and> att) \<or> state nd = SIGNALED
      | W111 \<Rightarrow> (state nd = WAITING \<and> att) \<or> state nd = SIGNALED
      | W127 \<Rightarrow> state nd = LEAVING \<and> w_oldstate t = WAITING
      | W150 \<Rightarrow> state nd = LEAVING \<and> w_oldstate t = WAITING \<and> \<not> att
      | W162 \<Rightarrow> state nd = SIGNALED \<and> w_oldstate t = SIGNALED
      | W168 \<Rightarrow> (state nd = LEAVING \<and> w_oldstate t = WAITING \<and> \<not> att)
                \<or> (state nd = SIGNALED \<and> w_oldstate t = SIGNALED)
      | W186 \<Rightarrow> state nd = SIGNALED \<and> w_oldstate t = SIGNALED
      | W191 \<Rightarrow> state nd = SIGNALED \<and> w_oldstate t = SIGNALED
      | W200 \<Rightarrow> (state nd = LEAVING \<and> w_oldstate t = WAITING \<and> \<not> att)
                \<or> (state nd = SIGNALED \<and> w_oldstate t = SIGNALED)
      | W_ret v \<Rightarrow> (state nd = LEAVING \<and> w_oldstate t = WAITING \<and> \<not> att)
                \<or> (state nd = SIGNALED \<and> w_oldstate t = SIGNALED)
                \<or> (state nd = WAITING \<and> \<not> att)
      | W_cancelled \<Rightarrow> (state nd = LEAVING \<and> w_oldstate t = WAITING \<and> \<not> att)
                \<or> (state nd = SIGNALED \<and> w_oldstate t = SIGNALED)
                \<or> (state nd = WAITING \<and> \<not> att)
      | W_fault \<Rightarrow> False)"

text \<open>No pointer of a node leads to the node of a call that has not reached line 93.\<close>

definition inv_ptr :: "sys \<Rightarrow> bool" where
  "inv_ptr s =
     (\<forall>a b. prev (nodes s a) = Some b \<or> next_w (nodes s a) = Some b \<longrightarrow>
        w_pc (wthr s b) \<noteq> W69 \<and> w_pc (wthr s b) \<noteq> W77)"

text \<open>
  A node that a signaller has taken off the list while its waiter is about to remove
  it (line 127) points to no attached node.
\<close>

definition inv_sep :: "sys \<Rightarrow> bool" where
  "inv_sep s =
     (\<forall>a b. w_pc (wthr s a) = W127 \<and> a \<notin> set (attached s)
        \<and> (prev (nodes s a) = Some b \<or> next_w (nodes s a) = Some b) \<longrightarrow>
        b \<notin> set (attached s))"

text \<open>
  The waiters that a signaller has found \<open>LEAVING\<close> and that have not yet
  decremented its counter: they are at line 127 or at line 150.
\<close>

definition pending :: "sys \<Rightarrow> addr \<Rightarrow> addr set" where
  "pending s r =
     {a. notify (nodes s a) = Some r \<and> (w_pc (wthr s a) = W127 \<or> w_pc (wthr s a) = W150)}"

text \<open>
  The counter \<open>ref\<close> of a signaller is the number of those waiters until the loop of
  lines 250-251 has read 0; from then on there are none.
\<close>

definition inv_ref :: "sys \<Rightarrow> bool" where
  "inv_ref s =
     (\<forall>r. (s_pc (sthr s r) = S221 \<or> s_pc (sthr s r) = S250 \<longrightarrow>
              s_ref (s_walk (sthr s r)) = int (card (pending s r)))
         \<and> (s_pc (sthr s r) = S254 \<or> s_pc (sthr s r) = S_ret \<longrightarrow> pending s r = {}))"

definition sys_inv :: "sys \<Rightarrow> bool" where
  "sys_inv s =
     (inv_list s \<and> inv_lock s \<and> inv_walk s \<and> inv_seen s \<and> (\<forall>a. inv_node s a)
      \<and> inv_ptr s \<and> inv_sep s \<and> inv_ref s)"

lemma dll_cong:
  "(\<And>x. x \<in> set xs \<Longrightarrow> prev (h' x) = prev (h x) \<and> next_w (h' x) = next_w (h x))
   \<Longrightarrow> dll h' pv xs nx = dll h pv xs nx"
  by (induction xs arbitrary: pv) (auto split: list.splits)

lemma dll_upd_notin: "x \<notin> set xs \<Longrightarrow> dll (h(x := v)) pv xs nx = dll h pv xs nx"
  by (rule dll_cong) auto

lemma dll_append:
  "dll h pv (xs @ y # ys) nx =
     (dll h pv xs (Some y) \<and> dll h (if xs = [] then pv else Some (last xs)) (y # ys) nx)"
  by (induction xs arbitrary: pv) (auto split: list.splits)

lemma enqueue_node_Nil:
  assumes "c_head c = None" "c_tail c = None"
  shows "enqueue_node a (c, h) =
     Some (c\<lparr>c_head := Some a, c_tail := Some a\<rparr>,
           h(a := (h a)\<lparr>barrier := 2, state := WAITING, next_w := None\<rparr>))"
  using assms by (simp add: enqueue_node_def Let_def)

lemma enqueue_node_Cons:
  assumes "c_head c = Some y" "c_tail c = Some t" "y \<noteq> a"
  shows "enqueue_node a (c, h) =
     Some (c\<lparr>c_head := Some a\<rparr>,
           h(a := (h a)\<lparr>barrier := 2, state := WAITING, next_w := Some y\<rparr>,
             y := (h y)\<lparr>prev := Some a\<rparr>))"
  using assms by (simp add: enqueue_node_def Let_def)

lemma enqueue_wf:
  assumes wf: "wf_queue c h xs" and a: "a \<notin> set xs" and p: "prev (h a) = None"
  shows "\<exists>c' h'. enqueue_node a (c, h) = Some (c', h') \<and> wf_queue c' h' (a # xs)"
proof (cases xs)
  case Nil
  with wf have "c_head c = None" "c_tail c = None" by (simp_all add: wf_queue_def)
  from enqueue_node_Nil [OF this] show ?thesis
    using Nil p by (simp add: wf_queue_def)
next
  case (Cons y ys)
  with wf a have hd: "c_head c = Some y" and tl: "c_tail c = Some (last xs)" and ya: "y \<noteq> a"
    by (auto simp: wf_queue_def)
  have d: "dll h None (y # ys) None" "distinct (y # ys)" using wf Cons by (simp_all add: wf_queue_def)
  let ?h = "h(a := (h a)\<lparr>barrier := 2, state := WAITING, next_w := Some y\<rparr>,
             y := (h y)\<lparr>prev := Some a\<rparr>)"
  have "dll ?h (Some y) ys None = dll h (Some y) ys None"
    using a d Cons by (intro dll_cong) auto
  then have "dll ?h None (a # y # ys) None"
    using d p ya by simp
  then show ?thesis
    using enqueue_node_Cons [OF hd tl ya] Cons a d tl by (simp add: wf_queue_def)
qed

lemma dll_set_next:
  "distinct xs \<Longrightarrow> xs \<noteq> [] \<Longrightarrow> dll h pv xs nx
   \<Longrightarrow> dll (h(last xs := (h (last xs))\<lparr>next_w := nx'\<rparr>)) pv xs nx'"
proof (induction xs arbitrary: pv)
  case Nil then show ?case by simp
next
  case (Cons x xs)
  show ?case
  proof (cases xs)
    case Nil with Cons.prems show ?thesis by simp
  next
    case (Cons y ys)
    with Cons.prems have "last (y # ys) \<noteq> x" by auto
    with Cons.IH [of "Some x"] Cons.prems Cons show ?thesis by simp
  qed
qed

lemma dll_set_prev:
  "d \<notin> set xs \<Longrightarrow> dll h pv (d # xs) nx \<Longrightarrow> dll (h(d := (h d)\<lparr>prev := pv'\<rparr>)) pv' (d # xs) nx"
  by (simp add: dll_upd_notin)

lemma dll_last_next: "xs \<noteq> [] \<Longrightarrow> dll h pv xs nx \<Longrightarrow> next_w (h (last xs)) = nx"
  by (induction xs arbitrary: pv) (auto split: list.splits)

lemma dll_hd_prev: "dll h pv (x # xs) nx \<Longrightarrow> prev (h x) = pv"
  by simp

lemma remove_node_fields:
  assumes "remove_node a (c, h) = (c', h')"
  shows "state (h' x) = state (h x)" "barrier (h' x) = barrier (h x)" "notify (h' x) = notify (h x)"
    "c_lock c' = c_lock c" "c_clock c' = c_clock c"
  using assms
  by (auto simp: remove_node_def Let_def split: if_splits option.splits)

lemma wf_queue_mid:
  assumes "wf_queue c h (pre @ a # post)"
  shows "prev (h a) = (if pre = [] then None else Some (last pre))"
    and "next_w (h a) = (case post of [] \<Rightarrow> None | d # _ \<Rightarrow> Some d)"
    and "c_head c = Some a \<longleftrightarrow> pre = []"
    and "c_tail c = Some a \<longleftrightarrow> post = []"
proof -
  from assms have d: "dll h None (pre @ a # post) None" and dist: "distinct (pre @ a # post)"
    and hd: "c_head c = Some (hd (pre @ a # post))"
    and tl: "c_tail c = Some (last (a # post))"
    by (simp_all add: wf_queue_def)
  from d show "prev (h a) = (if pre = [] then None else Some (last pre))"
    by (simp add: dll_append)
  from d show "next_w (h a) = (case post of [] \<Rightarrow> None | d # _ \<Rightarrow> Some d)"
    by (simp add: dll_append)
  from hd dist show "c_head c = Some a \<longleftrightarrow> pre = []"
    by (cases pre) auto
  from tl dist show "c_tail c = Some a \<longleftrightarrow> post = []"
    by (cases post) auto
qed

lemma remove_node_only:
  assumes "c_head c = Some a" "c_tail c = Some a" 
  shows "remove_node a (c, h) = (c\<lparr>c_head := next_w (h a), c_tail := prev (h a)\<rparr>, h)"
  using assms by (simp add: remove_node_def Let_def)

lemma remove_node_head:
  assumes "c_head c = Some a" "c_tail c \<noteq> Some a" "next_w (h a) = Some e"
  shows "remove_node a (c, h) = (c\<lparr>c_head := Some e\<rparr>, h(e := (h e)\<lparr>prev := prev (h a)\<rparr>))"
  using assms by (simp add: remove_node_def Let_def)

lemma remove_node_tail:
  assumes "c_head c \<noteq> Some a" "c_tail c = Some a" "prev (h a) = Some b" "b \<noteq> a"
  shows "remove_node a (c, h) = (c\<lparr>c_tail := Some b\<rparr>, h(b := (h b)\<lparr>next_w := next_w (h a)\<rparr>))"
  using assms by (simp add: remove_node_def Let_def)

lemma remove_node_inner:
  assumes "c_head c \<noteq> Some a" "c_tail c \<noteq> Some a" "prev (h a) = Some b" "b \<noteq> a"
    "next_w (h a) = Some e" "e \<noteq> b"
  shows "remove_node a (c, h) =
     (c, h(b := (h b)\<lparr>next_w := Some e\<rparr>, e := (h e)\<lparr>prev := Some b\<rparr>))"
  using assms by (simp add: remove_node_def Let_def)


lemma remove_node_attached:
  assumes wf: "wf_queue c h (pre @ a # post)"
  shows "wf_queue (fst (remove_node a (c, h))) (snd (remove_node a (c, h))) (pre @ post)"
proof -
  note m = wf_queue_mid [OF wf]
  from wf have d: "dll h None (pre @ a # post) None" and dist: "distinct (pre @ a # post)"
    by (simp_all add: wf_queue_def)
  from d have d1: "dll h None pre (Some a)"
    and d2: "dll h (if pre = [] then None else Some (last pre)) (a # post) None"
    by (simp_all add: dll_append)
  show ?thesis
  proof (cases pre rule: rev_cases)
    case Nil
    note pre = Nil
    then have hd: "c_head c = Some a" and pv: "prev (h a) = None" using m by simp_all
    show ?thesis
    proof (cases post)
      case Nil
      then have "c_tail c = Some a" "next_w (h a) = None" using m by simp_all
      with remove_node_only [where h = h and a = a and c = c] hd pv pre Nil show ?thesis
        by (simp add: wf_queue_def)
    next
      case (Cons e es)
      then have tl: "c_tail c \<noteq> Some a" and nx: "next_w (h a) = Some e" using m by simp_all
      note r = remove_node_head [where h = h and a = a and c = c, OF hd tl nx]
      from d2 pre Cons have "dll h (Some a) (e # es) None" by simp
      with dist Cons have "dll (h(e := (h e)\<lparr>prev := None\<rparr>)) None (e # es) None"
        by (intro dll_set_prev) auto
      moreover from wf Cons have "c_tail c = Some (last (e # es))"
        by (simp add: wf_queue_def)
      ultimately show ?thesis
        using r pv pre Cons dist by (simp add: wf_queue_def)
    qed
  next
    case (snoc bs b)
    note pre = snoc
    with dist have ba: "b \<noteq> a" by auto
    from pre m have hd: "c_head c \<noteq> Some a" and pv: "prev (h a) = Some b" by simp_all
    from d1 pre dist have d1': "dll (h(b := (h b)\<lparr>next_w := nx'\<rparr>)) None (bs @ [b]) nx'" for nx'
      using dll_set_next [of "bs @ [b]" h None "Some a" nx'] by simp
    from wf pre have chd: "c_head c = Some (hd (bs @ [b]))"
      by (simp add: wf_queue_def hd_append)
    show ?thesis
    proof (cases post)
      case Nil
      then have tl: "c_tail c = Some a" and nx: "next_w (h a) = None" using m by simp_all
      note r = remove_node_tail [where h = h and a = a and c = c, OF hd tl pv ba]
      from r nx d1' [of None] chd pre Nil dist show ?thesis
        by (simp add: wf_queue_def hd_append)
    next
      case (Cons e es)
      with pre dist have eb: "e \<noteq> b" "e \<noteq> a" by auto
      from Cons m have tl: "c_tail c \<noteq> Some a" and nx: "next_w (h a) = Some e" by simp_all
      note r = remove_node_inner [where h = h and a = a and c = c, OF hd tl pv ba nx eb(1)]
      let ?h1 = "h(b := (h b)\<lparr>next_w := Some e\<rparr>)"
      let ?h2 = "?h1(e := (?h1 e)\<lparr>prev := Some b\<rparr>)"
      have h2: "?h2 = h(b := (h b)\<lparr>next_w := Some e\<rparr>, e := (h e)\<lparr>prev := Some b\<rparr>)"
        using eb by simp
      from d2 pre Cons have "dll h (Some a) (e # es) None" by simp
      then have "dll ?h1 (Some a) (e # es) None"
        using dist pre Cons by (subst dll_upd_notin) auto
      then have "dll ?h2 (Some b) (e # es) None"
        using dist Cons by (intro dll_set_prev) auto
      moreover have "dll ?h2 None (bs @ [b]) (Some e)"
        using d1' [of "Some e"] dist pre Cons by (subst dll_upd_notin) auto
      ultimately have "dll ?h2 None ((bs @ [b]) @ e # es) None"
        by (subst dll_append) simp
      then have "dll (snd (remove_node a (c, h))) None (pre @ post) None"
        using r h2 pre Cons by simp
      moreover from wf Cons have "c_tail c = Some (last (e # es))"
        by (simp add: wf_queue_def)
      ultimately show ?thesis
        using r chd pre Cons dist by (simp add: wf_queue_def hd_append)
    qed
  qed
qed


lemma wf_queue_ends:
  assumes wf: "wf_queue c h xs"
  shows "c_head c = Some a \<Longrightarrow> a \<in> set xs" and "c_tail c = Some a \<Longrightarrow> a \<in> set xs"
proof -
  show "c_head c = Some a \<Longrightarrow> a \<in> set xs"
    using wf by (cases xs) (auto simp: wf_queue_def)
  show "c_tail c = Some a \<Longrightarrow> a \<in> set xs"
    using wf by (cases xs rule: rev_cases) (auto simp: wf_queue_def)
qed

lemma remove_node_other:
  assumes hd: "c_head c \<noteq> Some a" and tl: "c_tail c \<noteq> Some a"
  shows "fst (remove_node a (c, h)) = c"
    and "prev (h a) \<noteq> Some x \<Longrightarrow> next_w (h a) \<noteq> Some x \<Longrightarrow> snd (remove_node a (c, h)) x = h x"
proof -
  show "fst (remove_node a (c, h)) = c"
    using hd tl by (simp add: remove_node_def Let_def split: option.split)
  assume x: "prev (h a) \<noteq> Some x" "next_w (h a) \<noteq> Some x"
  show "snd (remove_node a (c, h)) x = h x"
  proof (cases "prev (h a)")
    case None
    with hd tl x show ?thesis
      by (cases "next_w (h a)") (simp_all add: remove_node_def Let_def)
  next
    case (Some b)
    then have n1: "next_w ((h(b := (h b)\<lparr>next_w := next_w (h a)\<rparr>)) a) = next_w (h a)"
      by simp
    from Some hd tl x n1 show ?thesis
      by (cases "next_w (h a)") (simp_all add: remove_node_def Let_def)
  qed
qed

lemma remove_node_detached:
  assumes wf: "wf_queue c h xs" and a: "a \<notin> set xs"
    and p: "\<forall>b. prev (h a) = Some b \<longrightarrow> b \<notin> set xs"
    and n: "\<forall>d. next_w (h a) = Some d \<longrightarrow> d \<notin> set xs"
  shows "wf_queue (fst (remove_node a (c, h))) (snd (remove_node a (c, h))) xs"
proof -
  from wf_queue_ends [OF wf] a have hd: "c_head c \<noteq> Some a" and tl: "c_tail c \<noteq> Some a"
    by blast+
  note r = remove_node_other [OF hd tl]
  have "\<And>x. x \<in> set xs \<Longrightarrow> snd (remove_node a (c, h)) x = h x"
    using p n by (intro r(2)) auto
  then have "dll (snd (remove_node a (c, h))) None xs None = dll h None xs None"
    by (intro dll_cong) simp
  with wf r(1) show ?thesis by (simp add: wf_queue_def)
qed

lemma dll_ptrs:
  "dll h pv xs nx \<Longrightarrow> x \<in> set xs \<Longrightarrow>
     prev (h x) \<in> insert pv (Some ` set xs) \<and> next_w (h x) \<in> insert nx (Some ` set xs)"
proof (induction xs arbitrary: pv)
  case Nil then show ?case by simp
next
  case (Cons y ys)
  show ?case
  proof (cases "x = y")
    case True
    with Cons.prems show ?thesis by (cases ys) auto
  next
    case False
    with Cons.prems have "x \<in> set ys" "dll h (Some y) ys nx" by auto
    from Cons.IH [OF this(2,1)] show ?thesis by auto
  qed
qed

lemma split_list_None:
  "split_list None (c, h) = (c\<lparr>c_head := None, c_tail := None\<rparr>, h)"
  by (simp add: split_list_def)

lemma split_list_Some_end:
  "next_w (h b) = None \<Longrightarrow>
   split_list (Some b) (c, h) = (c\<lparr>c_tail := Some b\<rparr>, h(b := (h b)\<lparr>next_w := None\<rparr>))"
  by (simp add: split_list_def)

lemma split_list_Some_mid:
  "next_w (h b) = Some y \<Longrightarrow> y \<noteq> b \<Longrightarrow>
   split_list (Some b) (c, h) =
     (c\<lparr>c_tail := Some b\<rparr>, h(y := (h y)\<lparr>prev := None\<rparr>, b := (h b)\<lparr>next_w := None\<rparr>))"
  by (simp add: split_list_def)

lemma split_list_wf:
  assumes wf: "wf_queue c h (pre @ seen)"
    and p: "p = (if pre = [] then None else Some (last pre))"
  shows "wf_queue (fst (split_list p (c, h))) (snd (split_list p (c, h))) pre"
    and "dll (snd (split_list p (c, h))) None seen None"
proof -
  from wf have d: "dll h None (pre @ seen) None" and dist: "distinct (pre @ seen)"
    by (simp_all add: wf_queue_def)
  have "wf_queue (fst (split_list p (c, h))) (snd (split_list p (c, h))) pre
      \<and> dll (snd (split_list p (c, h))) None seen None"
  proof (cases pre rule: rev_cases)
    case Nil
    with p d show ?thesis by (simp add: split_list_None wf_queue_def)
  next
    case (snoc bs b)
    with p have p': "p = Some b" by simp
    from wf snoc have chd: "c_head c = Some (hd (bs @ [b]))"
      by (simp add: wf_queue_def hd_append)
    show ?thesis
    proof (cases seen)
      case Nil
      with d snoc have nx: "next_w (h b) = None"
        using dll_last_next [of "bs @ [b]" h None None] by simp
      have "h(b := (h b)\<lparr>next_w := None\<rparr>) = h" using nx by (simp add: fun_eq_iff)
      with split_list_Some_end [where h = h and b = b and c = c, OF nx] p' wf snoc Nil chd show ?thesis
        by (simp add: wf_queue_def)
    next
      case (Cons y ys)
      with d snoc have d1: "dll h None (bs @ [b]) (Some y)" and d2: "dll h (Some b) (y # ys) None"
        using dll_append [of h None "bs @ [b]" y ys None] by simp_all
      from d1 have nx: "next_w (h b) = Some y"
        using dll_last_next [of "bs @ [b]" h None "Some y"] by simp
      from dist snoc Cons have yb: "y \<noteq> b" by auto
      let ?h1 = "h(y := (h y)\<lparr>prev := None\<rparr>)"
      let ?h2 = "?h1(b := (?h1 b)\<lparr>next_w := None\<rparr>)"
      have h2: "?h2 = h(y := (h y)\<lparr>prev := None\<rparr>, b := (h b)\<lparr>next_w := None\<rparr>)"
        using yb by simp
      have "dll ?h1 None (bs @ [b]) (Some y)"
        using d1 dist snoc Cons by (subst dll_upd_notin) auto
      then have a: "dll ?h2 None (bs @ [b]) None"
        using dll_set_next [of "bs @ [b]" ?h1 None "Some y" None] dist snoc by simp
      have "dll ?h1 None (y # ys) None"
        using d2 dist Cons by (intro dll_set_prev) auto
      then have b: "dll ?h2 None (y # ys) None"
        using dist snoc Cons by (subst dll_upd_notin) auto
      from a b h2 split_list_Some_mid [where h = h and b = b and c = c, OF nx yb] p' snoc Cons chd dist show ?thesis
        by (simp add: wf_queue_def)
    qed
  qed
  then show "wf_queue (fst (split_list p (c, h))) (snd (split_list p (c, h))) pre"
    and "dll (snd (split_list p (c, h))) None seen None" by simp_all
qed

lemma split_list_fields:
  "state (snd (split_list p (c, h)) x) = state (h x)"
  "barrier (snd (split_list p (c, h)) x) = barrier (h x)"
  "notify (snd (split_list p (c, h)) x) = notify (h x)"
  "c_lock (fst (split_list p (c, h))) = c_lock c"
  by (auto simp: split_list_def Let_def split: option.splits)

lemma nsec_range: "(1000000000 \<le> (w :: 64 word)) \<longleftrightarrow> (sint w < 0 \<or> 1000000000 \<le> sint w)"
proof -
  have r: "- (2 ^ 63) \<le> sint w" "sint w < 2 ^ 63"
    using sint_ge [of w] sint_lt [of w] by simp_all
  have u: "uint w = sint w mod 2 ^ 64"
    by (simp add: uint_sint take_bit_eq_mod)
  have le: "(1000000000 \<le> w) \<longleftrightarrow> 1000000000 \<le> uint w"
    by (simp add: word_le_def)
  show ?thesis
  proof (cases "sint w < 0")
    case True
    with r have "sint w mod 2 ^ 64 = sint w + 2 ^ 64"
      by (intro mod_pos_pos_trivial [THEN trans [OF mod_add_self2 [symmetric]]]) simp_all
    with True r u le show ?thesis by simp
  next
    case False
    with r have "sint w mod 2 ^ 64 = sint w" by simp
    with False u le show ?thesis by simp
  qed
qed


lemmas upd_defs = set_w_def set_s_def set_node_def goto_def

text \<open>
  C8, amended. When the mutex is of a type that records its owner (the low four bits of
  its type are not 0) and the owner in its lock word is not the caller, the call
  returns \<open>EPERM\<close> in its first step; the state after it differs from the state
  before it only in the program point of the caller, so the condition variable, the
  nodes and the mutex are as they were.
\<close>

theorem not_owner_EPERM:
  assumes "w_pc (wthr s a) = W69"
    and "(m_type (mtx s) AND 15) \<noteq> 0" and "(m_lock (mtx s) AND INT_MAX) \<noteq> tid"
  shows "w_enter a tid ts cst pend s = Some (s\<lparr>wthr := (wthr s)(a := (wthr s a)\<lparr>w_pc := W_ret EPERM\<rparr>)\<rparr>)"
  using assms by (simp add: w_enter_def tw_validate_def upd_defs)

theorem not_owner_EPERM_witness:
  "w_enter 1 7 None PTHREAD_CANCEL_ENABLE False (init m_errorcheck 0) =
     Some ((init m_errorcheck 0)\<lparr>wthr := (wthr (init m_errorcheck 0))
        (1 := (wthr (init m_errorcheck 0) 1)\<lparr>w_pc := W_ret EPERM\<rparr>)\<rparr>)"
  by (rule not_owner_EPERM) (simp_all add: init_def m_errorcheck_def INT_MAX_def)

theorem not_owner_normal_mutex_counterexample:
  "(m_lock m_normal AND INT_MAX) \<noteq> 7 \<and>
   w_enter 1 7 None PTHREAD_CANCEL_ENABLE False (init m_normal 0) =
     Some ((init m_normal 0)\<lparr>wthr := (wthr (init m_normal 0))
        (1 := (wthr (init m_normal 0) 1)\<lparr>w_pc := W77, w_cancel := PTHREAD_CANCEL_ENABLE\<rparr>)\<rparr>)
   \<and> W77 \<noteq> W_ret EPERM"
  by (simp add: w_enter_def tw_validate_def upd_defs init_def m_normal_def INT_MAX_def)

text \<open>
  C9, amended. When the ownership check of lines 69-70 does not fire and the
  nanoseconds of the deadline are negative or at least \<open>10^9\<close>, the call returns
  \<open>EINVAL\<close> in its first step, and nothing but the program point of the caller
  changes.
\<close>

theorem bad_nsec_EINVAL:
  assumes "w_pc (wthr s a) = W69"
    and "(m_type (mtx s) AND 15) = 0 \<or> (m_lock (mtx s) AND INT_MAX) = tid"
    and "sint (tv_nsec t) < 0 \<or> 1000000000 \<le> sint (tv_nsec t)"
  shows "w_enter a tid (Some t) cst pend s =
     Some (s\<lparr>wthr := (wthr s)(a := (wthr s a)\<lparr>w_pc := W_ret EINVAL\<rparr>)\<rparr>)"
  using assms by (auto simp: w_enter_def tw_validate_def upd_defs nsec_range)

theorem bad_nsec_EINVAL_witness:
  "w_enter 1 7 (Some \<lparr>tv_sec = 0, tv_nsec = - 1\<rparr>) PTHREAD_CANCEL_ENABLE False (init m_normal 0) =
     Some ((init m_normal 0)\<lparr>wthr := (wthr (init m_normal 0))
        (1 := (wthr (init m_normal 0) 1)\<lparr>w_pc := W_ret EINVAL\<rparr>)\<rparr>)"
  by (rule bad_nsec_EINVAL) (simp_all add: init_def m_normal_def)

theorem bad_nsec_not_owner_counterexample:
  "1000000000 \<le> sint (tv_nsec \<lparr>tv_sec = 0, tv_nsec = 2000000000\<rparr>) \<and>
   w_enter 1 7 (Some \<lparr>tv_sec = 0, tv_nsec = 2000000000\<rparr>) PTHREAD_CANCEL_ENABLE False
       (init m_errorcheck 0) =
     Some ((init m_errorcheck 0)\<lparr>wthr := (wthr (init m_errorcheck 0))
        (1 := (wthr (init m_errorcheck 0) 1)\<lparr>w_pc := W_ret EPERM\<rparr>)\<rparr>)
   \<and> EPERM \<noteq> EINVAL"
  by (simp add: w_enter_def tw_validate_def upd_defs init_def m_errorcheck_def INT_MAX_def
      EPERM_def EINVAL_def)

lemmas step_defs = w_enter_def w_enqueue_def w_munlock_def w_wake_def w_cas_def w_remove_def
  w_notify_def w_barrier_def w_mlock_def w_inc_def w_next_def w_done_def
  s_lock_def s_iter_def s_split_def s_wait_def s_unlock_def

lemma wthr_other:
  assumes "step act s = Some s'" "wactor act \<noteq> Some a"
  shows "wthr s' a = wthr s a"
  using assms
  by (cases act)
     (auto simp: step_defs upd_defs Let_def split: if_split_asm option.splits)

lemma sthr_other:
  assumes "step act s = Some s'" "sactor act \<noteq> Some r"
  shows "s_pc (sthr s' r) = s_pc (sthr s r)" "s_p (s_walk (sthr s' r)) = s_p (s_walk (sthr s r))"
    "s_n (s_walk (sthr s' r)) = s_n (s_walk (sthr s r))"
    "s_first (s_walk (sthr s' r)) = s_first (s_walk (sthr s r))"
    "s_seen (s_walk (sthr s' r)) = s_seen (s_walk (sthr s r))"
  using assms
  by (cases act; auto simp: step_defs upd_defs Let_def split: if_split_asm option.splits)+


lemma walk_iter_fields:
  "state (fst (walk_iter r x (h, w)) y) =
     (if y = x \<and> state (h x) = WAITING then SIGNALED else state (h y))"
  "notify (fst (walk_iter r x (h, w)) y) =
     (if y = x \<and> state (h x) \<noteq> WAITING then Some r else notify (h y))"
  "prev (fst (walk_iter r x (h, w)) y) = prev (h y)"
  "next_w (fst (walk_iter r x (h, w)) y) = next_w (h y)"
  "barrier (fst (walk_iter r x (h, w)) y) = barrier (h y)"
  by (auto simp: walk_iter_def a_cas_def Let_def)

lemma walk_iter_walk:
  "snd (walk_iter r x (h, w)) =
     (if state (h x) \<noteq> WAITING
      then w\<lparr>s_p := prev (h x), s_ref := s_ref w + 1, s_seen := x # s_seen w\<rparr>
      else w\<lparr>s_p := prev (h x), s_n := s_n w - 1,
             s_first := (if s_first w = None then Some x else s_first w),
             s_seen := x # s_seen w\<rparr>)"
  by (auto simp: walk_iter_def a_cas_def Let_def)

lemma enqueue_node_fields:
  assumes "enqueue_node b (c, h) = Some (c', h')"
  shows "state (h' y) = (if y = b then WAITING else state (h y))"
    "barrier (h' y) = (if y = b then 2 else barrier (h y))"
    "notify (h' y) = notify (h y)"
    "c_lock c' = c_lock c"
  using assms
  by (auto simp: enqueue_node_def Let_def split: if_split_asm option.splits)

text \<open>How a step changes the state field of a node.\<close>

lemma step_state:
  assumes "step act s = Some s'"
  shows "state (nodes s' x) =
     (if act = W_enqueue x \<and> w_pc (wthr s' x) \<noteq> W_fault then WAITING
      else if act = W_cas x \<and> state (nodes s x) = WAITING then LEAVING
      else if (\<exists>r. act = S_iter r \<and> s_p (s_walk (sthr s r)) = Some x) \<and> state (nodes s x) = WAITING
        then SIGNALED
      else state (nodes s x))"
proof (cases act)
  case (W_enqueue b)
  with assms show ?thesis
    by (auto simp: w_enqueue_def upd_defs enqueue_node_fields split: if_split_asm option.splits)
next
  case (W_remove b)
  with assms show ?thesis
    by (auto simp: w_remove_def upd_defs Let_def remove_node_fields [OF surjective_pairing]
        split: if_split_asm)
next
  case (S_iter r)
  with assms show ?thesis
    by (auto simp: s_iter_def upd_defs Let_def walk_iter_fields split: if_split_asm option.splits)
next
  case (S_split r)
  with assms show ?thesis
    by (auto simp: s_split_def upd_defs Let_def split_list_fields split: if_split_asm)
next
  case (W_cas b)
  with assms show ?thesis
    by (auto simp: w_cas_def upd_defs Let_def a_cas_def split: if_split_asm)
qed (use assms in \<open>auto simp: step_defs upd_defs Let_def split: if_split_asm option.splits\<close>)

lemma sig_cancel_inv_cong:
  assumes "sig_cancel_inv a g s" "wthr s' a = wthr s a"
    "state (nodes s a) = SIGNALED \<Longrightarrow> state (nodes s' a) = SIGNALED"
  shows "sig_cancel_inv a g s'"
  using assms unfolding sig_cancel_inv_def
  by (cases "w_pc (wthr s a)") simp_all

lemma sig_cancel_own:
  assumes inv: "sig_cancel_inv a g s" and st: "step act s = Some s'" and ac: "wactor act = Some a"
  shows "sig_cancel_inv a (g \<and> (\<forall>tmp lk. act = W_mlock a tmp lk \<longrightarrow> tmp = 0)) s'"
proof (cases act)
  case (W_cas b)
  with inv st ac show ?thesis
    by (auto simp: sig_cancel_inv_def w_cas_def upd_defs a_cas_def Let_def split: if_split_asm)
next
  case (W_barrier b v)
  with inv st ac show ?thesis
    by (auto simp: sig_cancel_inv_def w_barrier_def upd_defs split: if_split_asm)
next
  case (W_mlock b tmp lk)
  with inv st ac show ?thesis
    by (auto simp: sig_cancel_inv_def w_mlock_def upd_defs split: if_split_asm)
next
  case (W_inc b)
  with inv st ac show ?thesis
    by (auto simp: sig_cancel_inv_def w_inc_def upd_defs split: if_split_asm)
next
  case (W_next b)
  with inv st ac show ?thesis
    by (auto simp: sig_cancel_inv_def w_next_def upd_defs Let_def ECANCELED_def
        split: if_split_asm option.splits)
next
  case (W_done b pend)
  with inv st ac show ?thesis
    by (auto simp: sig_cancel_inv_def w_done_def upd_defs split: if_split_asm)
qed (use inv st ac in \<open>auto simp: sig_cancel_inv_def step_defs upd_defs split: if_split_asm\<close>)

lemma sig_cancel_step:
  assumes inv: "sig_cancel_inv a g s" and st: "step act s = Some s'"
  shows "sig_cancel_inv a (g \<and> (\<forall>tmp lk. act = W_mlock a tmp lk \<longrightarrow> tmp = 0)) s'"
proof (cases "wactor act = Some a")
  case True
  from sig_cancel_own [OF inv st True] show ?thesis .
next
  case False
  then have ne: "act \<noteq> W_enqueue a" "act \<noteq> W_cas a" "\<And>tmp lk. act \<noteq> W_mlock a tmp lk"
    by auto
  have "sig_cancel_inv a g s'"
    using inv wthr_other [OF st False]
    by (rule sig_cancel_inv_cong) (use ne in \<open>simp add: step_state [OF st]\<close>)
  with ne show ?thesis by simp
qed

lemma sig_cancel_run:
  assumes "sig_cancel_inv a g s" "run sched s = Some s'"
  shows "sig_cancel_inv a (g \<and> mlock_ok a sched) s'"
  using assms
proof (induction sched arbitrary: s g)
  case Nil
  then show ?case by (simp add: mlock_ok_def)
next
  case (Cons act sched)
  from Cons.prems(2) obtain s1 where s1: "step act s = Some s1" and r: "run sched s1 = Some s'"
    by (auto split: option.splits)
  from Cons.IH [OF sig_cancel_step [OF Cons.prems(1) s1] r]
  show ?case by (auto simp: mlock_ok_def elim!: back_subst [where P = "\<lambda>g. sig_cancel_inv a g s'"])
qed

lemmas eval_defs = step_defs upd_defs init_def m_normal_def m_errorcheck_def zero_node_def
  enqueue_node_def remove_node_def split_list_def walk_iter_def a_cas_def tw_validate_def
  INT_MAX_def Let_def EPERM_def EINVAL_def ETIMEDOUT_def ECANCELED_def

lemmas sched_defs = sched_signaled_def st_signaled_def sched_exit_def sched_timeout_def
  st_timeout_def

text \<open>
  C6, amended. Once the wait of a waiter has returned \<open>ECANCELED\<close> and its node
  is \<open>SIGNALED\<close> at line 111, then in every interleaving the call neither unwinds the
  thread nor returns \<open>ECANCELED\<close>, and it returns 0 when no \<open>pthread_mutex_lock\<close>
  of the call fails.
\<close>

theorem consumed_signal_suppresses_cancel:
  assumes "w_pc (wthr s a) = W111" and "w_e (wthr s a) = ECANCELED"
    and "state (nodes s a) = SIGNALED" and "run sched s = Some s'"
  shows "w_pc (wthr s' a) \<noteq> W_cancelled \<and> w_pc (wthr s' a) \<noteq> W_ret ECANCELED
    \<and> (mlock_ok a sched \<longrightarrow> (\<forall>v. w_pc (wthr s' a) = W_ret v \<longrightarrow> v = 0))"
proof -
  from assms(1-3) have "sig_cancel_inv a True s" by (simp add: sig_cancel_inv_def)
  from sig_cancel_run [OF this assms(4)]
  show ?thesis
    unfolding sig_cancel_inv_def by (cases "w_pc (wthr s' a)") simp_all
qed

theorem consumed_signal_suppresses_cancel_witness:
  "w_pc (wthr (st_signaled ECANCELED) 1) = W111
   \<and> w_e (wthr (st_signaled ECANCELED) 1) = ECANCELED
   \<and> state (nodes (st_signaled ECANCELED) 1) = SIGNALED
   \<and> mlock_ok 1 (sched_exit 0)
   \<and> map_option (\<lambda>s. w_pc (wthr s 1)) (run (sched_exit 0) (st_signaled ECANCELED)) = Some (W_ret 0)"
proof -
  have h: "w_pc (wthr (st_signaled ECANCELED) 1) = W111"
    "w_e (wthr (st_signaled ECANCELED) 1) = ECANCELED"
    "state (nodes (st_signaled ECANCELED) 1) = SIGNALED"
    by (simp_all add: sched_defs eval_defs)
  obtain s' where r: "run (sched_exit 0) (st_signaled ECANCELED) = Some s'"
    and v: "\<exists>v. w_pc (wthr s' 1) = W_ret v"
    by (simp add: sched_defs eval_defs)
  have ok: "mlock_ok 1 (sched_exit 0)"
    by (simp add: mlock_ok_def sched_exit_def)
  from consumed_signal_suppresses_cancel [OF h r] ok v have "w_pc (wthr s' 1) = W_ret 0"
    by auto
  with h ok r show ?thesis by simp
qed

theorem consumed_signal_mutex_error_counterexample:
  "w_pc (wthr (st_signaled ECANCELED) 1) = W111
   \<and> w_e (wthr (st_signaled ECANCELED) 1) = ECANCELED
   \<and> state (nodes (st_signaled ECANCELED) 1) = SIGNALED
   \<and> map_option (\<lambda>s. w_pc (wthr s 1)) (run (sched_exit EPERM) (st_signaled ECANCELED))
       = Some (W_ret EPERM)
   \<and> EPERM \<noteq> 0"
  by (simp add: sched_defs eval_defs)

lemma mlock_err_cong:
  assumes "mlock_err_inv a tmp s" "wthr s' a = wthr s a"
  shows "mlock_err_inv a tmp s'"
  using assms unfolding mlock_err_inv_def by (cases "w_pc (wthr s a)") simp_all

lemma mlock_err_own:
  assumes inv: "mlock_err_inv a tmp s" and ne: "tmp \<noteq> ECANCELED"
    and st: "step act s = Some s'" and ac: "wactor act = Some a"
  shows "mlock_err_inv a tmp s'"
proof (cases act)
  case (W_inc b)
  with inv st ac show ?thesis
    by (auto simp: mlock_err_inv_def w_inc_def upd_defs split: if_split_asm)
next
  case (W_next b)
  with inv st ac ne show ?thesis
    by (auto simp: mlock_err_inv_def w_next_def upd_defs Let_def split: if_split_asm option.splits)
next
  case (W_done b pend)
  with inv st ac ne show ?thesis
    by (auto simp: mlock_err_inv_def w_done_def upd_defs split: if_split_asm)
qed (use inv st ac in \<open>auto simp: mlock_err_inv_def step_defs upd_defs Let_def split: if_split_asm\<close>)

lemma mlock_err_run:
  assumes "mlock_err_inv a tmp s" "tmp \<noteq> ECANCELED" "run sched s = Some s'"
  shows "mlock_err_inv a tmp s'"
  using assms
proof (induction sched arbitrary: s)
  case Nil
  then show ?case by simp
next
  case (Cons act sched)
  from Cons.prems(3) obtain s1 where s1: "step act s = Some s1" and r: "run sched s1 = Some s'"
    by (auto split: option.splits)
  have "mlock_err_inv a tmp s1"
  proof (cases "wactor act = Some a")
    case True
    from mlock_err_own [OF Cons.prems(1,2) s1 True] show ?thesis .
  next
    case False
    from mlock_err_cong [OF Cons.prems(1) wthr_other [OF s1 False]] show ?thesis .
  qed
  from Cons.IH [OF this Cons.prems(2) r] show ?case .
qed

text \<open>
  C7. When \<open>pthread_mutex_lock\<close> at line 168 fails with the error \<open>tmp\<close>, then
  whatever the call had recorded in \<open>e\<close> (a timeout or a pending cancellation) and
  whatever the other threads do, the call does not unwind the thread, and the value it
  returns is \<open>tmp\<close>. The error is not \<open>ECANCELED\<close>: \<open>pthread_mutex_lock\<close> is
  no cancellation point and has no such error.
\<close>

theorem mutex_error_overrides:
  assumes "w_pc (wthr s a) = W168" and "tmp \<noteq> 0" and "tmp \<noteq> ECANCELED"
    and "run (W_mlock a tmp lk # sched) s = Some s'"
  shows "w_pc (wthr s' a) \<noteq> W_cancelled \<and> (\<forall>v. w_pc (wthr s' a) = W_ret v \<longrightarrow> v = tmp)"
proof -
  from assms(4) obtain s1 where s1: "w_mlock a tmp lk s = Some s1" and r: "run sched s1 = Some s'"
    by (auto split: option.splits)
  from s1 assms(1,2) have "mlock_err_inv a tmp s1"
    by (auto simp: mlock_err_inv_def w_mlock_def upd_defs)
  from mlock_err_run [OF this assms(3) r] show ?thesis
    unfolding mlock_err_inv_def by (cases "w_pc (wthr s' a)") simp_all
qed

theorem mutex_error_overrides_witness:
  "w_pc (wthr (the (run [W_cas 1] st_timeout)) 1) = W127
   \<and> w_e (wthr (the (run [W_cas 1, W_remove 1, W_notify 1] st_timeout)) 1) = ETIMEDOUT
   \<and> w_pc (wthr (the (run [W_cas 1, W_remove 1, W_notify 1] st_timeout)) 1) = W168
   \<and> EPERM \<noteq> 0 \<and> EPERM \<noteq> ECANCELED
   \<and> map_option (\<lambda>s. w_pc (wthr s 1))
        (run [W_mlock 1 EPERM 7, W_done 1 True]
           (the (run [W_cas 1, W_remove 1, W_notify 1] st_timeout))) = Some (W_ret EPERM)"
proof -
  define s0 where "s0 = the (run [W_cas 1, W_remove 1, W_notify 1] st_timeout)"
  have h: "w_pc (wthr s0 1) = W168" "w_e (wthr s0 1) = ETIMEDOUT"
    "w_pc (wthr (the (run [W_cas 1] st_timeout)) 1) = W127"
    by (simp_all add: s0_def sched_defs eval_defs)
  have e: "EPERM \<noteq> 0" "EPERM \<noteq> ECANCELED" by (simp_all add: EPERM_def ECANCELED_def)
  obtain s' where r: "run (W_mlock 1 EPERM 7 # [W_done 1 True]) s0 = Some s'"
    and v: "\<exists>v. w_pc (wthr s' 1) = W_ret v"
    by (simp add: s0_def sched_defs eval_defs)
  from mutex_error_overrides [OF h(1) e r] v have "w_pc (wthr s' 1) = W_ret EPERM"
    by auto
  with h e r show ?thesis by (simp add: s0_def)
qed

lemma timeout_path_entry:
  assumes "w_cas a s = Some s'" and "state (nodes s a) = WAITING"
  shows "timeout_path (wthr s' a) \<and> state (nodes s' a) = LEAVING"
  using assms
  by (auto simp: timeout_path_def w_cas_def upd_defs a_cas_def Let_def split: if_split_asm)

text \<open>
  C10. A step of a waiter on the path of the timeout (from the won exchange of line
  111 to the return) leaves the waiter counter and the type of the mutex, every
  barrier, every \<open>state\<close> and every \<open>notify\<close> as they are and logs no requeue. Its
  effects on shared memory are: lines 127-139 change the list as \<open>remove_node\<close>
  does; lines 150-153 take one off the counter that \<open>notify\<close> points to, and log one
  wake on that counter when it held 1; line 168 is the call of \<open>pthread_mutex_lock\<close>.
  The waiter stays on that path until it returns or is cancelled, so it never
  reaches lines 186-194.
\<close>

theorem timeout_path_frame:
  assumes "step act s = Some s'" and "wactor act = Some a" and "timeout_path (wthr s a)"
  shows "m_waiters (mtx s') = m_waiters (mtx s) \<and> m_type (mtx s') = m_type (mtx s)
    \<and> (\<forall>x. barrier (nodes s' x) = barrier (nodes s x) \<and> state (nodes s' x) = state (nodes s x)
            \<and> notify (nodes s' x) = notify (nodes s x))
    \<and> (if act = W_remove a then (cv s', nodes s') = remove_node a (cv s, nodes s)
        else cv s' = cv s \<and> nodes s' = nodes s)
    \<and> (if act = W_notify a
        then (case notify (nodes s a) of
                None \<Rightarrow> sthr s' = sthr s \<and> futex_log s' = futex_log s
              | Some r \<Rightarrow>
                  sthr s' = (sthr s)(r := (sthr s r)\<lparr>s_walk := (s_walk (sthr s r))
                                \<lparr>s_ref := s_ref (s_walk (sthr s r)) - 1\<rparr>\<rparr>)
                  \<and> futex_log s' = futex_log s @
                        (if s_ref (s_walk (sthr s r)) = 1 then [Wake (F_ref r) 1] else []))
        else sthr s' = sthr s \<and> futex_log s' = futex_log s)
    \<and> ((\<exists>tmp lk. act = W_mlock a tmp lk) \<or> mtx s' = mtx s)
    \<and> (timeout_path (wthr s' a) \<or> w_pc (wthr s' a) = W_cancelled
          \<or> (\<exists>v. w_pc (wthr s' a) = W_ret v))"
proof (cases act)
  case (W_remove b)
  with assms show ?thesis
    by (auto simp: timeout_path_def w_remove_def upd_defs Let_def
        remove_node_fields [OF surjective_pairing] split: if_split_asm)
next
  case (W_notify b)
  with assms show ?thesis
    by (auto simp: timeout_path_def w_notify_def upd_defs Let_def
        split: if_split_asm option.splits)
next
  case (W_mlock b tmp lk)
  with assms show ?thesis
    by (auto simp: timeout_path_def w_mlock_def upd_defs split: if_split_asm)
next
  case (W_done b pend)
  with assms show ?thesis
    by (auto simp: timeout_path_def w_done_def upd_defs split: if_split_asm)
qed (use assms in \<open>auto simp: timeout_path_def step_defs upd_defs Let_def split: if_split_asm\<close>)

theorem timeout_path_frame_witness:
  "step (W_remove 1) (the (run [W_cas 1] st_timeout)) = run [W_cas 1, W_remove 1] st_timeout
   \<and> timeout_path (wthr (the (run [W_cas 1] st_timeout)) 1)
   \<and> state (nodes (the (run [W_cas 1] st_timeout)) 1) = LEAVING
   \<and> c_head (cv (the (run [W_cas 1] st_timeout))) = Some 1
   \<and> c_head (cv (the (run [W_cas 1, W_remove 1] st_timeout))) = None
   \<and> m_waiters (mtx (the (run [W_cas 1, W_remove 1] st_timeout)))
       = m_waiters (mtx (the (run [W_cas 1] st_timeout)))"
proof -
  define s0 where "s0 = the (run [W_cas 1] st_timeout)"
  define s1 where "s1 = the (run [W_cas 1, W_remove 1] st_timeout)"
  have st: "step (W_remove 1) s0 = Some s1"
    and st': "step (W_remove 1) s0 = run [W_cas 1, W_remove 1] st_timeout"
    and tp: "timeout_path (wthr s0 1)"
    and f: "state (nodes s0 1) = LEAVING" "c_head (cv s0) = Some 1" "c_head (cv s1) = None"
    by (simp_all add: s0_def s1_def timeout_path_def sched_defs eval_defs)
  from timeout_path_frame [OF st _ tp] have "m_waiters (mtx s1) = m_waiters (mtx s0)"
    by simp
  with st' tp f show ?thesis by (simp add: s0_def s1_def)
qed

lemma bchain_cong:
  "(\<And>x. x \<in> set ys \<Longrightarrow> prev (h' x) = prev (h x)) \<Longrightarrow> bchain h' p ys = bchain h p ys"
  by (induction ys arbitrary: p) auto

lemma dll_bchain:
  "dll h None xs nx \<Longrightarrow> bchain h (if xs = [] then None else Some (last xs)) (rev xs)"
proof (induction xs arbitrary: nx rule: rev_induct)
  case Nil
  then show ?case by simp
next
  case (snoc x xs)
  from snoc.prems have d: "dll h None xs (Some x)"
    and px: "prev (h x) = (if xs = [] then None else Some (last xs))"
    using dll_append [of h None xs x "[]" nx] by simp_all
  from snoc.IH [OF d] px show ?case by simp
qed

lemma bchain_hd: "bchain h p ys \<Longrightarrow> p = (if ys = [] then None else Some (hd ys))"
  by (cases ys) simp_all

lemma signal_walk_list:
  "bchain h (s_p w) ys \<Longrightarrow> signal_walk r (h, w) = Some (walk_list r ys (h, w))"
proof (induction ys arbitrary: h w)
  case Nil
  then show ?case by (simp add: signal_walk.simps)
next
  case (Cons y ys)
  from Cons.prems have p: "s_p w = Some y" and b: "bchain h (prev (h y)) ys" by simp_all
  show ?case
  proof (cases "s_n w = 0")
    case True
    with p show ?thesis by (subst signal_walk.simps) simp
  next
    case False
    obtain h1 w1 where hw1: "walk_iter r y (h, w) = (h1, w1)" by (cases "walk_iter r y (h, w)")
    have sp: "s_p w1 = prev (h y)"
      using walk_iter_walk [of r y h w] hw1 by (simp split: if_split_asm)
    have "bchain h1 (prev (h y)) ys = bchain h (prev (h y)) ys"
      using walk_iter_fields(3) [of r y h w] hw1 by (intro bchain_cong) simp
    with b sp have "bchain h1 (s_p w1) ys" by simp
    from Cons.IH [OF this] False p hw1 show ?thesis
      by (subst signal_walk.simps) simp
  qed
qed

lemma visited_cong:
  "(\<And>x. x \<in> set ys \<Longrightarrow> state (h' x) = state (h x)) \<Longrightarrow> visited n h' ys = visited n h ys"
  by (induction ys arbitrary: n) auto

lemma visited_subset: "set (visited n h ys) \<subseteq> set ys"
  by (induction ys arbitrary: n) auto

lemma walk_iter_n:
  "s_n (snd (walk_iter r y (h, w))) = (if state (h y) = WAITING then s_n w - 1 else s_n w)"
  "s_seen (snd (walk_iter r y (h, w))) = y # s_seen w"
  "s_ref (snd (walk_iter r y (h, w))) = (if state (h y) = WAITING then s_ref w else s_ref w + 1)"
  "s_first (snd (walk_iter r y (h, w))) =
     (if state (h y) = WAITING \<and> s_first w = None then Some y else s_first w)"
  "s_p (snd (walk_iter r y (h, w))) = prev (h y)"
  by (simp_all add: walk_iter_walk)

lemma visited_step:
  assumes "y \<notin> set ys"
  shows "visited n (fst (walk_iter r y (h, w))) ys = visited n h ys"
  using assms by (intro visited_cong) (auto simp: walk_iter_fields)

lemma walk_list_seen:
  "distinct ys \<Longrightarrow>
   s_seen (snd (walk_list r ys (h, w))) = rev (visited (s_n w) h ys) @ s_seen w"
proof (induction ys arbitrary: h w)
  case Nil then show ?case by simp
next
  case (Cons y ys)
  show ?case
  proof (cases "s_n w = 0")
    case True then show ?thesis by simp
  next
    case False
    from Cons.prems have d: "distinct ys" "y \<notin> set ys" by simp_all
    from Cons.IH [OF d(1), of "fst (walk_iter r y (h, w))" "snd (walk_iter r y (h, w))"]
      False
    show ?thesis by (simp add: walk_iter_n visited_step [OF d(2)])
  qed
qed

lemma walk_list_n:
  "distinct ys \<Longrightarrow>
   s_n (snd (walk_list r ys (h, w)))
     = s_n w - int (length (filter (\<lambda>x. state (h x) = WAITING) (visited (s_n w) h ys)))"
proof (induction ys arbitrary: h w)
  case Nil then show ?case by simp
next
  case (Cons y ys)
  show ?case
  proof (cases "s_n w = 0")
    case True then show ?thesis by simp
  next
    case False
    from Cons.prems have d: "distinct ys" "y \<notin> set ys" by simp_all
    have f: "filter (\<lambda>x. state (fst (walk_iter r y (h, w)) x) = WAITING) zs
           = filter (\<lambda>x. state (h x) = WAITING) zs" if "y \<notin> set zs" for zs
      using that by (intro filter_cong) (auto simp: walk_iter_fields)
    have nv: "y \<notin> set (visited n h ys)" for n using d(2) visited_subset by fastforce
    from Cons.IH [OF d(1), of "fst (walk_iter r y (h, w))" "snd (walk_iter r y (h, w))"]
      False
    show ?thesis by (simp add: walk_iter_n visited_step [OF d(2)] f nv)
  qed
qed

lemma walk_list_ref:
  "distinct ys \<Longrightarrow>
   s_ref (snd (walk_list r ys (h, w)))
     = s_ref w + int (length (filter (\<lambda>x. state (h x) \<noteq> WAITING) (visited (s_n w) h ys)))"
proof (induction ys arbitrary: h w)
  case Nil then show ?case by simp
next
  case (Cons y ys)
  show ?case
  proof (cases "s_n w = 0")
    case True then show ?thesis by simp
  next
    case False
    from Cons.prems have d: "distinct ys" "y \<notin> set ys" by simp_all
    have f: "filter (\<lambda>x. state (fst (walk_iter r y (h, w)) x) \<noteq> WAITING) zs
           = filter (\<lambda>x. state (h x) \<noteq> WAITING) zs" if "y \<notin> set zs" for zs
      using that by (intro filter_cong) (auto simp: walk_iter_fields)
    have nv: "y \<notin> set (visited n h ys)" for n using d(2) visited_subset by fastforce
    from Cons.IH [OF d(1), of "fst (walk_iter r y (h, w))" "snd (walk_iter r y (h, w))"]
      False
    show ?thesis by (simp add: walk_iter_n visited_step [OF d(2)] f nv)
  qed
qed

lemma walk_list_first:
  "distinct ys \<Longrightarrow>
   s_first (snd (walk_list r ys (h, w)))
     = (if s_first w \<noteq> None then s_first w
        else (case filter (\<lambda>x. state (h x) = WAITING) (visited (s_n w) h ys) of
                [] \<Rightarrow> None | f # _ \<Rightarrow> Some f))"
proof (induction ys arbitrary: h w)
  case Nil then show ?case by simp
next
  case (Cons y ys)
  show ?case
  proof (cases "s_n w = 0")
    case True then show ?thesis by simp
  next
    case False
    from Cons.prems have d: "distinct ys" "y \<notin> set ys" by simp_all
    have f: "filter (\<lambda>x. state (fst (walk_iter r y (h, w)) x) = WAITING) zs
           = filter (\<lambda>x. state (h x) = WAITING) zs" if "y \<notin> set zs" for zs
      using that by (intro filter_cong) (auto simp: walk_iter_fields)
    have nv: "y \<notin> set (visited n h ys)" for n using d(2) visited_subset by fastforce
    from Cons.IH [OF d(1), of "fst (walk_iter r y (h, w))" "snd (walk_iter r y (h, w))"]
      False
    show ?thesis by (auto simp: walk_iter_n visited_step [OF d(2)] f nv)
  qed
qed

lemma walk_list_heap:
  "distinct ys \<Longrightarrow>
   state (fst (walk_list r ys (h, w)) x)
     = (if x \<in> set (visited (s_n w) h ys) \<and> state (h x) = WAITING then SIGNALED else state (h x))
   \<and> notify (fst (walk_list r ys (h, w)) x)
     = (if x \<in> set (visited (s_n w) h ys) \<and> state (h x) \<noteq> WAITING then Some r else notify (h x))
   \<and> prev (fst (walk_list r ys (h, w)) x) = prev (h x)
   \<and> next_w (fst (walk_list r ys (h, w)) x) = next_w (h x)
   \<and> barrier (fst (walk_list r ys (h, w)) x) = barrier (h x)"
proof (induction ys arbitrary: h w)
  case Nil then show ?case by simp
next
  case (Cons y ys)
  show ?case
  proof (cases "s_n w = 0")
    case True then show ?thesis by simp
  next
    case False
    from Cons.prems have d: "distinct ys" "y \<notin> set ys" by simp_all
    have nv: "y \<notin> set (visited n h ys)" for n using d(2) visited_subset by fastforce
    from Cons.IH [OF d(1), of "fst (walk_iter r y (h, w))" "snd (walk_iter r y (h, w))"]
      False nv
    show ?thesis by (auto simp: walk_iter_n walk_iter_fields visited_step [OF d(2)])
  qed
qed

lemma walk_list_p:
  "distinct ys \<Longrightarrow> bchain h (s_p w) ys \<Longrightarrow>
   bchain h (s_p (snd (walk_list r ys (h, w)))) (drop (length (visited (s_n w) h ys)) ys)"
proof (induction ys arbitrary: h w)
  case Nil then show ?case by simp
next
  case (Cons y ys)
  show ?case
  proof (cases "s_n w = 0")
    case True with Cons.prems show ?thesis by simp
  next
    case False
    from Cons.prems have d: "distinct ys" "y \<notin> set ys"
      and b: "bchain h (prev (h y)) ys" by simp_all
    let ?h1 = "fst (walk_iter r y (h, w))" and ?w1 = "snd (walk_iter r y (h, w))"
    have c: "bchain ?h1 p zs = bchain h p zs" for p zs
      by (intro bchain_cong) (simp add: walk_iter_fields)
    from b have "bchain ?h1 (s_p ?w1) ys" by (simp add: c walk_iter_n)
    from Cons.IH [OF d(1) this] False
    show ?thesis by (simp add: walk_iter_n c visited_step [OF d(2)])
  qed
qed

lemma visited_0: "visited 0 h ys = []"
  by (cases ys) simp_all

lemma visited_take: "visited n h ys = take (length (visited n h ys)) ys"
  by (induction ys arbitrary: n) auto

lemma visited_filter:
  "filter (\<lambda>x. state (h x) = WAITING) (visited n h ys)
     = (if n < 0 then filter (\<lambda>x. state (h x) = WAITING) ys
        else take (nat n) (filter (\<lambda>x. state (h x) = WAITING) ys))"
proof (induction ys arbitrary: n)
  case Nil then show ?case by simp
next
  case (Cons y ys)
  show ?case
  proof (cases "n = 0")
    case True then show ?thesis by simp
  next
    case False
    then have "nat n = Suc (nat (n - 1))" if "0 < n" using that by simp
    with False Cons.IH [of "n - 1"] Cons.IH [of n] show ?thesis
      by (cases "0 < n") auto
  qed
qed

lemma visited_stop:
  "length (visited n h ys) < length ys \<Longrightarrow>
     0 \<le> n \<and> int (length (filter (\<lambda>x. state (h x) = WAITING) (visited n h ys))) = n"
proof (induction ys arbitrary: n)
  case Nil then show ?case by simp
next
  case (Cons y ys)
  show ?case
  proof (cases "n = 0")
    case True then show ?thesis by simp
  next
    case False
    with Cons.prems
    have "length (visited (if state (h y) = WAITING then n - 1 else n) h ys) < length ys"
      by simp
    from Cons.IH [OF this] False show ?thesis by (auto split: if_split_asm)
  qed
qed

lemma visited_last:
  "0 < n \<Longrightarrow> int (length (filter (\<lambda>x. state (h x) = WAITING) (visited n h ys))) = n \<Longrightarrow>
     visited n h ys \<noteq> [] \<and> state (h (last (visited n h ys))) = WAITING"
proof (induction ys arbitrary: n)
  case Nil then show ?case by simp
next
  case (Cons y ys)
  show ?case
  proof (cases "state (h y) = WAITING")
    case True
    show ?thesis
    proof (cases "n = 1")
      case True
      with \<open>state (h y) = WAITING\<close> show ?thesis by (simp add: visited_0)
    next
      case False
      with Cons.prems True
      have "0 < n - 1"
        "int (length (filter (\<lambda>x. state (h x) = WAITING) (visited (n - 1) h ys))) = n - 1"
        by auto
      from Cons.IH [OF this] Cons.prems True show ?thesis by simp
    qed
  next
    case False
    with Cons.prems
    have "int (length (filter (\<lambda>x. state (h x) = WAITING) (visited n h ys))) = n"
      by auto
    from Cons.IH [OF Cons.prems(1) this] Cons.prems(1) False show ?thesis by simp
  qed
qed

lemma oldest_waiting_visited:
  "oldest_waiting n h xs = filter (\<lambda>x. state (h x) = WAITING) (visited n h (rev xs))"
  by (simp add: oldest_waiting_def visited_filter Let_def)

lemma s_unlock_barrier:
  assumes "s_pc (sthr s r) = S254" and "s_first (s_walk (sthr s r)) = f"
  shows "\<exists>s'. s_unlock r s = Some s'
     \<and> (\<forall>x. barrier (nodes s' x) = (if Some x = f then 0 else barrier (nodes s x)))"
  using assms by (auto simp: s_unlock_def upd_defs Let_def split: option.splits)

text \<open>
  C2. On a well-formed list \<open>xs\<close> (the head first, the tail last) the loop of lines
  221-235, started at the tail with the count \<open>n\<close>, returns. The nodes it has
  visited are the tail end \<open>s_seen\<close> of the list, and \<open>p\<close> is left at the node
  before them; it stops with \<open>n = 0\<close> or past the head, and when it stops on
  \<open>n = 0\<close> the last node it visited was \<open>WAITING\<close>. The nodes it moves to
  \<open>SIGNALED\<close> are exactly the \<open>n\<close> oldest \<open>WAITING\<close> nodes (all of them when
  \<open>n\<close> is negative), \<open>n\<close> goes down by their number only, \<open>first\<close> is the oldest of
  them, \<open>ref\<close> counts the visited nodes that were not \<open>WAITING\<close>, and exactly those
  get \<open>notify\<close> set to \<open>ref\<close>. The barrier that lines 254-255 release later is
  the barrier of that \<open>first\<close>, and no other.
\<close>

theorem signal_walk_fifo:
  assumes "wf_queue c h xs"
  shows "\<exists>h' w' pre.
     signal_walk r (h, \<lparr>s_p = c_tail c, s_n = n, s_first = None, s_ref = 0, s_seen = []\<rparr>)
       = Some (h', w')
     \<and> xs = pre @ s_seen w' \<and> s_p w' = (if pre = [] then None else Some (last pre))
     \<and> (s_n w' = 0 \<or> pre = [])
     \<and> (0 < n \<and> s_n w' = 0 \<longrightarrow> s_seen w' \<noteq> [] \<and> state (h (hd (s_seen w'))) = WAITING)
     \<and> set (oldest_waiting n h xs) \<subseteq> set (s_seen w')
     \<and> (\<forall>x. state (h' x) = (if x \<in> set (oldest_waiting n h xs) then SIGNALED else state (h x)))
     \<and> (\<forall>x. notify (h' x)
            = (if x \<in> set (s_seen w') \<and> state (h x) \<noteq> WAITING then Some r else notify (h x)))
     \<and> (\<forall>x. prev (h' x) = prev (h x) \<and> next_w (h' x) = next_w (h x)
            \<and> barrier (h' x) = barrier (h x))
     \<and> s_n w' = n - int (length (oldest_waiting n h xs))
     \<and> s_ref w' = int (length (filter (\<lambda>x. state (h x) \<noteq> WAITING) (s_seen w')))
     \<and> s_first w' = (case oldest_waiting n h xs of [] \<Rightarrow> None | f # _ \<Rightarrow> Some f)
     \<and> (\<forall>s. s_pc (sthr s r) = S254 \<and> s_first (s_walk (sthr s r)) = s_first w' \<longrightarrow>
           (\<exists>s'. s_unlock r s = Some s'
              \<and> (\<forall>x. barrier (nodes s' x)
                     = (if Some x = s_first w' then 0 else barrier (nodes s x)))))"
proof -
  let ?w = "\<lparr>s_p = c_tail c, s_n = n, s_first = None, s_ref = 0, s_seen = []\<rparr>"
  let ?ys = "rev xs"
  let ?V = "visited n h ?ys"
  let ?res = "walk_list r ?ys (h, ?w)"
  let ?rest = "drop (length ?V) ?ys"
  from assms have d: "distinct ?ys" and dl: "dll h None xs None"
    and tl: "c_tail c = (if xs = [] then None else Some (last xs))"
    by (simp_all add: wf_queue_def)
  from dll_bchain [OF dl] tl have b: "bchain h (s_p ?w) ?ys" by simp
  from signal_walk_list [OF b] have run: "signal_walk r (h, ?w) = Some (fst ?res, snd ?res)"
    by simp
  have ys: "?ys = ?V @ ?rest"
    using visited_take [of n h ?ys] append_take_drop_id [of "length ?V" ?ys] by simp
  then have xs: "xs = rev ?rest @ rev ?V"
    by (metis rev_append rev_rev_ident)
  have seen: "s_seen (snd ?res) = rev ?V"
    using walk_list_seen [OF d, of r h ?w] by simp
  have sn: "s_n (snd ?res) = n - int (length (oldest_waiting n h xs))"
    using walk_list_n [OF d, of r h ?w] by (simp add: oldest_waiting_visited)
  have p: "s_p (snd ?res) = (if rev ?rest = [] then None else Some (last (rev ?rest)))"
    using bchain_hd [OF walk_list_p [OF d b, of r]] by (simp add: last_rev)
  have stop: "s_n (snd ?res) = 0 \<or> rev ?rest = []"
  proof (cases "?rest = []")
    case True then show ?thesis by simp
  next
    case False
    then have "length ?V < length ?ys" by simp
    from visited_stop [OF this] sn show ?thesis by (simp add: oldest_waiting_visited)
  qed
  have lastv: "s_seen (snd ?res) \<noteq> [] \<and> state (h (hd (s_seen (snd ?res)))) = WAITING"
    if "0 < n" "s_n (snd ?res) = 0"
  proof -
    from that sn
    have "int (length (filter (\<lambda>x. state (h x) = WAITING) ?V)) = n"
      by (simp add: oldest_waiting_visited)
    from visited_last [OF that(1) this] seen show ?thesis by (simp add: hd_rev)
  qed
  have sub: "set (oldest_waiting n h xs) \<subseteq> set (s_seen (snd ?res))"
    by (auto simp: seen oldest_waiting_visited)
  note hp = walk_list_heap [OF d, of r h ?w]
  have st: "state (fst ?res x) = (if x \<in> set (oldest_waiting n h xs) then SIGNALED else state (h x))"
    for x using hp [of x] by (auto simp: oldest_waiting_visited)
  have nt: "notify (fst ?res x)
      = (if x \<in> set (s_seen (snd ?res)) \<and> state (h x) \<noteq> WAITING then Some r else notify (h x))"
    for x using hp [of x] by (simp add: seen)
  have fr: "prev (fst ?res x) = prev (h x) \<and> next_w (fst ?res x) = next_w (h x)
      \<and> barrier (fst ?res x) = barrier (h x)" for x
    using hp [of x] by simp
  have rf: "s_ref (snd ?res) = int (length (filter (\<lambda>x. state (h x) \<noteq> WAITING) (s_seen (snd ?res))))"
    using walk_list_ref [OF d, of r h ?w] by (simp add: seen flip: rev_filter)
  have fi: "s_first (snd ?res) = (case oldest_waiting n h xs of [] \<Rightarrow> None | f # _ \<Rightarrow> Some f)"
    using walk_list_first [OF d, of r h ?w] by (simp add: oldest_waiting_visited)
  from xs seen have xs': "xs = rev ?rest @ s_seen (snd ?res)" by simp
  show ?thesis
    apply (rule exI [of _ "fst ?res"], rule exI [of _ "snd ?res"], rule exI [of _ "rev ?rest"])
    apply (intro conjI allI impI)
    subgoal by (rule run)
    subgoal by (rule xs')
    subgoal by (rule p)
    subgoal by (rule stop)
    subgoal using lastv by blast
    subgoal using lastv by blast
    subgoal by (rule sub)
    subgoal by (rule st)
    subgoal by (rule nt)
    subgoal using fr by blast
    subgoal using fr by blast
    subgoal using fr by blast
    subgoal by (rule sn)
    subgoal by (rule rf)
    subgoal by (rule fi)
    subgoal for s by (rule s_unlock_barrier) simp_all
    done
qed

theorem signal_walk_fifo_witness:
  "wf_queue cond3 heap3 [3, 2, 1]
   \<and> oldest_waiting 1 heap3 [3, 2, 1] = [2]
   \<and> map_option (\<lambda>hw. (s_first (snd hw), s_n (snd hw), s_ref (snd hw), s_seen (snd hw),
                        s_p (snd hw), map (\<lambda>x. state (fst hw x)) [1, 2, 3]))
       (signal_walk 9 (heap3, \<lparr>s_p = c_tail cond3, s_n = 1, s_first = None, s_ref = 0,
                                 s_seen = []\<rparr>))
     = Some (Some 2, 0, 1, [2, 1], Some 3, [LEAVING, SIGNALED, WAITING])"
proof -
  have wf: "wf_queue cond3 heap3 [3, 2, 1]"
    by (simp add: wf_queue_def cond3_def heap3_def)
  have ow: "oldest_waiting 1 heap3 [3, 2, 1] = [2]"
    by (simp add: oldest_waiting_def heap3_def)
  from signal_walk_fifo [OF wf, of 9 1] ow
  have "\<exists>h' w'. signal_walk 9 (heap3, \<lparr>s_p = c_tail cond3, s_n = 1, s_first = None, s_ref = 0,
          s_seen = []\<rparr>) = Some (h', w') \<and> s_first w' = Some 2 \<and> s_n w' = 0"
    by auto
  moreover
  have "map_option (\<lambda>hw. (s_ref (snd hw), s_seen (snd hw), s_p (snd hw),
                          map (\<lambda>x. state (fst hw x)) [1, 2, 3]))
       (signal_walk 9 (heap3, \<lparr>s_p = c_tail cond3, s_n = 1, s_first = None, s_ref = 0,
                                 s_seen = []\<rparr>))
     = Some (1, [2, 1], Some 3, [LEAVING, SIGNALED, WAITING])"
    by (simp add: signal_walk.simps walk_iter_def a_cas_def Let_def cond3_def heap3_def)
  ultimately show ?thesis using wf ow by auto
qed

lemma inv_init: "sys_inv (init m clk)"
  by (auto simp: sys_inv_def inv_list_def inv_lock_def inv_walk_def inv_seen_def inv_node_def
      inv_ptr_def inv_sep_def inv_ref_def pending_def init_def wf_queue_def zero_node_def)

text \<open>The effect of each step on the components of the state.\<close>

lemma w_enter_eff:
  assumes "w_enter a tid ts cst pend s = Some s'"
  shows "w_pc (wthr s a) = W69" "cv s' = cv s" "nodes s' = nodes s" "sthr s' = sthr s"
    "attached s' = attached s" "\<And>b. b \<noteq> a \<Longrightarrow> wthr s' b = wthr s b"
    "w_pc (wthr s' a) = W77 \<or> w_pc (wthr s' a) = W_cancelled \<or> (\<exists>v. w_pc (wthr s' a) = W_ret v)"
    "w_oldstate (wthr s' a) = w_oldstate (wthr s a)"
  using assms by (auto simp: w_enter_def upd_defs split: if_split_asm option.splits)

lemma w_enqueue_eff:
  assumes "w_enqueue a s = Some s'"
  shows "w_pc (wthr s a) = W77" "c_lock (cv s) = 0" "sthr s' = sthr s"
    "\<And>b. b \<noteq> a \<Longrightarrow> wthr s' b = wthr s b"
    "w_oldstate (wthr s' a) = w_oldstate (wthr s a)"
    "enqueue_node a (cv s, nodes s) = None \<Longrightarrow>
       w_pc (wthr s' a) = W_fault \<and> cv s' = cv s \<and> nodes s' = nodes s \<and> attached s' = attached s"
    "\<And>c' h'. enqueue_node a (cv s, nodes s) = Some (c', h') \<Longrightarrow>
       w_pc (wthr s' a) = W93 \<and> cv s' = c' \<and> nodes s' = h' \<and> attached s' = a # attached s"
  using assms by (auto simp: w_enqueue_def upd_defs split: if_split_asm option.splits)

lemma w_munlock_eff:
  assumes "w_munlock a lk s = Some s'"
  shows "w_pc (wthr s a) = W93" "cv s' = cv s" "nodes s' = nodes s" "sthr s' = sthr s"
    "attached s' = attached s" "\<And>b. b \<noteq> a \<Longrightarrow> wthr s' b = wthr s b"
    "w_pc (wthr s' a) = W107" "w_oldstate (wthr s' a) = w_oldstate (wthr s a)"
  using assms by (auto simp: w_munlock_def upd_defs split: if_split_asm)

lemma w_wake_eff:
  assumes "w_wake a e s = Some s'"
  shows "w_pc (wthr s a) = W107" "cv s' = cv s" "nodes s' = nodes s" "sthr s' = sthr s"
    "attached s' = attached s" "\<And>b. b \<noteq> a \<Longrightarrow> wthr s' b = wthr s b"
    "w_pc (wthr s' a) = W111" "w_oldstate (wthr s' a) = w_oldstate (wthr s a)"
  using assms by (auto simp: w_wake_def upd_defs split: if_split_asm)

lemma w_cas_eff:
  assumes "w_cas a s = Some s'"
  shows "w_pc (wthr s a) = W111" "cv s' = cv s" "sthr s' = sthr s"
    "attached s' = attached s" "\<And>b. b \<noteq> a \<Longrightarrow> wthr s' b = wthr s b"
    "w_pc (wthr s' a) = (if state (nodes s a) = WAITING then W127 else W162)"
    "w_oldstate (wthr s' a) = state (nodes s a)"
    "nodes s' = (nodes s)(a := (nodes s a)\<lparr>state :=
        (if state (nodes s a) = WAITING then LEAVING else state (nodes s a))\<rparr>)"
  using assms by (auto simp: w_cas_def upd_defs a_cas_def Let_def split: if_split_asm)

lemma w_remove_eff:
  assumes "w_remove a s = Some s'"
  shows "w_pc (wthr s a) = W127" "c_lock (cv s) = 0" "sthr s' = sthr s"
    "\<And>b. b \<noteq> a \<Longrightarrow> wthr s' b = wthr s b"
    "w_pc (wthr s' a) = W150" "w_oldstate (wthr s' a) = w_oldstate (wthr s a)"
    "cv s' = fst (remove_node a (cv s, nodes s))" "nodes s' = snd (remove_node a (cv s, nodes s))"
    "attached s' = remove1 a (attached s)"
  using assms by (auto simp: w_remove_def upd_defs Let_def split: if_split_asm)

lemma w_notify_eff:
  assumes "w_notify a s = Some s'"
  shows "w_pc (wthr s a) = W150" "cv s' = cv s" "nodes s' = nodes s"
    "attached s' = attached s" "\<And>b. b \<noteq> a \<Longrightarrow> wthr s' b = wthr s b"
    "w_pc (wthr s' a) = W168" "w_oldstate (wthr s' a) = w_oldstate (wthr s a)"
    "\<And>r. s_pc (sthr s' r) = s_pc (sthr s r)"
    "\<And>r. s_seen (s_walk (sthr s' r)) = s_seen (s_walk (sthr s r))"
    "\<And>r. s_p (s_walk (sthr s' r)) = s_p (s_walk (sthr s r))"
    "\<And>r. s_ref (s_walk (sthr s' r))
        = (if notify (nodes s a) = Some r then s_ref (s_walk (sthr s r)) - 1
           else s_ref (s_walk (sthr s r)))"
  using assms
  by (auto simp: w_notify_def upd_defs Let_def split: if_split_asm option.splits)

lemma w_barrier_eff:
  assumes "w_barrier a v s = Some s'"
  shows "w_pc (wthr s a) = W162" "cv s' = cv s" "sthr s' = sthr s"
    "attached s' = attached s" "\<And>b. b \<noteq> a \<Longrightarrow> wthr s' b = wthr s b"
    "w_pc (wthr s' a) = W168" "w_oldstate (wthr s' a) = w_oldstate (wthr s a)"
    "nodes s' = (nodes s)(a := (nodes s a)\<lparr>barrier := v\<rparr>)"
  using assms by (auto simp: w_barrier_def upd_defs split: if_split_asm)

lemma w_mlock_eff:
  assumes "w_mlock a tmp lk s = Some s'"
  shows "w_pc (wthr s a) = W168" "cv s' = cv s" "nodes s' = nodes s" "sthr s' = sthr s"
    "attached s' = attached s" "\<And>b. b \<noteq> a \<Longrightarrow> wthr s' b = wthr s b"
    "w_pc (wthr s' a) = (if w_oldstate (wthr s a) = WAITING then W200 else W186)"
    "w_oldstate (wthr s' a) = w_oldstate (wthr s a)"
  using assms by (auto simp: w_mlock_def upd_defs split: if_split_asm)

lemma w_inc_eff:
  assumes "w_inc a s = Some s'"
  shows "w_pc (wthr s a) = W186" "cv s' = cv s" "nodes s' = nodes s" "sthr s' = sthr s"
    "attached s' = attached s" "\<And>b. b \<noteq> a \<Longrightarrow> wthr s' b = wthr s b"
    "w_pc (wthr s' a) = W191" "w_oldstate (wthr s' a) = w_oldstate (wthr s a)"
  using assms by (auto simp: w_inc_def upd_defs split: if_split_asm)

lemma w_next_eff:
  assumes "w_next a s = Some s'"
  shows "w_pc (wthr s a) = W191" "cv s' = cv s" "sthr s' = sthr s"
    "attached s' = attached s" "\<And>b. b \<noteq> a \<Longrightarrow> wthr s' b = wthr s b"
    "w_pc (wthr s' a) = W200" "w_oldstate (wthr s' a) = w_oldstate (wthr s a)"
    "\<And>x. prev (nodes s' x) = prev (nodes s x)" "\<And>x. next_w (nodes s' x) = next_w (nodes s x)"
    "\<And>x. state (nodes s' x) = state (nodes s x)" "\<And>x. notify (nodes s' x) = notify (nodes s x)"
  using assms
  by (auto simp: w_next_def upd_defs Let_def split: if_split_asm option.splits)

lemma w_done_eff:
  assumes "w_done a pend s = Some s'"
  shows "w_pc (wthr s a) = W200" "cv s' = cv s" "nodes s' = nodes s" "sthr s' = sthr s"
    "attached s' = attached s" "\<And>b. b \<noteq> a \<Longrightarrow> wthr s' b = wthr s b"
    "w_pc (wthr s' a) = W_cancelled \<or> (\<exists>v. w_pc (wthr s' a) = W_ret v)"
    "w_oldstate (wthr s' a) = w_oldstate (wthr s a)"
  using assms by (auto simp: w_done_def upd_defs split: if_split_asm)

lemma s_lock_eff:
  assumes "s_lock r n s = Some s'"
  shows "s_pc (sthr s r) = S220" "c_lock (cv s) = 0" "cv s' = (cv s)\<lparr>c_lock := 1\<rparr>"
    "nodes s' = nodes s" "wthr s' = wthr s" "attached s' = attached s"
    "\<And>q. q \<noteq> r \<Longrightarrow> sthr s' q = sthr s q"
    "sthr s' r = \<lparr>s_pc = S221, s_walk = \<lparr>s_p = c_tail (cv s), s_n = n, s_first = None,
        s_ref = 0, s_seen = []\<rparr>\<rparr>"
  using assms by (auto simp: s_lock_def upd_defs split: if_split_asm)

lemma s_iter_eff:
  assumes "s_iter r s = Some s'"
  shows "s_pc (sthr s r) = S221" "cv s' = cv s" "wthr s' = wthr s" "attached s' = attached s"
    "\<And>q. q \<noteq> r \<Longrightarrow> sthr s' q = sthr s q"
    "s_pc (sthr s' r) = S221"
    "\<exists>x. s_p (s_walk (sthr s r)) = Some x
        \<and> nodes s' = fst (walk_iter r x (nodes s, s_walk (sthr s r)))
        \<and> s_walk (sthr s' r) = snd (walk_iter r x (nodes s, s_walk (sthr s r)))"
  using assms
  by (auto simp: s_iter_def upd_defs Let_def split: if_split_asm option.splits)

lemma s_split_eff:
  assumes "s_split r s = Some s'"
  shows "s_pc (sthr s r) = S221" "wthr s' = wthr s"
    "\<And>q. q \<noteq> r \<Longrightarrow> sthr s' q = sthr s q"
    "s_pc (sthr s' r) = S250" "s_walk (sthr s' r) = s_walk (sthr s r)"
    "cv s' = (fst (split_list (s_p (s_walk (sthr s r))) (cv s, nodes s)))\<lparr>c_lock := 0\<rparr>"
    "nodes s' = snd (split_list (s_p (s_walk (sthr s r))) (cv s, nodes s))"
    "attached s' = filter (\<lambda>x. x \<notin> set (s_seen (s_walk (sthr s r)))) (attached s)"
  using assms by (auto simp: s_split_def upd_defs Let_def split: if_split_asm)

lemma s_wait_eff:
  assumes "s_wait r s = Some s'"
  shows "s_pc (sthr s r) = S250" "cv s' = cv s" "nodes s' = nodes s" "wthr s' = wthr s"
    "attached s' = attached s" "\<And>q. q \<noteq> r \<Longrightarrow> sthr s' q = sthr s q"
    "s_walk (sthr s' r) = s_walk (sthr s r)"
    "s_pc (sthr s' r) = (if s_ref (s_walk (sthr s r)) = 0 then S254 else S250)"
  using assms by (auto simp: s_wait_def upd_defs split: if_split_asm)

lemma s_unlock_eff:
  assumes "s_unlock r s = Some s'"
  shows "s_pc (sthr s r) = S254" "cv s' = cv s" "wthr s' = wthr s"
    "attached s' = attached s" "\<And>q. q \<noteq> r \<Longrightarrow> sthr s' q = sthr s q"
    "s_walk (sthr s' r) = s_walk (sthr s r)" "s_pc (sthr s' r) = S_ret"
    "\<And>x. prev (nodes s' x) = prev (nodes s x)" "\<And>x. next_w (nodes s' x) = next_w (nodes s x)"
    "\<And>x. state (nodes s' x) = state (nodes s x)" "\<And>x. notify (nodes s' x) = notify (nodes s x)"
  using assms
  by (auto simp: s_unlock_def upd_defs Let_def split: if_split_asm option.splits)

lemma remove_node_lock: "c_lock (fst (remove_node a (c, h))) = c_lock c"
  using remove_node_fields(4) [OF surjective_pairing] .

lemma inv_lock_step:
  assumes i: "sys_inv s" and st: "step act s = Some s'"
  shows "inv_lock s'"
proof -
  from i have l: "inv_lock s" by (simp add: sys_inv_def)
  show ?thesis
  proof (cases act)
    case (W_enter a tid ts cst pend)
    with st l w_enter_eff [of a tid ts cst pend s s'] show ?thesis
      by (simp add: inv_lock_def)
  next
    case (W_enqueue a)
    with st have e: "w_enqueue a s = Some s'" by simp
    note f = w_enqueue_eff [OF e]
    show ?thesis
    proof (cases "enqueue_node a (cv s, nodes s)")
      case None
      with f l show ?thesis by (simp add: inv_lock_def)
    next
      case (Some ch)
      then obtain c' h' where ch: "enqueue_node a (cv s, nodes s) = Some (c', h')"
        by (cases ch) simp
      with f(7) [OF ch] f(1-3) l enqueue_node_fields(4) [OF ch] show ?thesis
        by (simp add: inv_lock_def)
    qed
  next
    case (W_munlock a lk)
    with st l w_munlock_eff [of a lk s s'] show ?thesis by (simp add: inv_lock_def)
  next
    case (W_wake a e)
    with st l w_wake_eff [of a e s s'] show ?thesis by (simp add: inv_lock_def)
  next
    case (W_cas a)
    with st l w_cas_eff [of a s s'] show ?thesis by (simp add: inv_lock_def)
  next
    case (W_remove a)
    with st l w_remove_eff [of a s s'] show ?thesis
      by (simp add: inv_lock_def remove_node_lock)
  next
    case (W_notify a)
    with st l w_notify_eff [of a s s'] show ?thesis by (simp add: inv_lock_def)
  next
    case (W_barrier a v)
    with st l w_barrier_eff [of a v s s'] show ?thesis by (simp add: inv_lock_def)
  next
    case (W_mlock a tmp lk)
    with st l w_mlock_eff [of a tmp lk s s'] show ?thesis by (simp add: inv_lock_def)
  next
    case (W_inc a)
    with st l w_inc_eff [of a s s'] show ?thesis by (simp add: inv_lock_def)
  next
    case (W_next a)
    with st l w_next_eff [of a s s'] show ?thesis by (simp add: inv_lock_def)
  next
    case (W_done a pend)
    with st l w_done_eff [of a pend s s'] show ?thesis by (simp add: inv_lock_def)
  next
    case (S_lock r n)
    with st have e: "s_lock r n s = Some s'" by simp
    note f = s_lock_eff [OF e]
    from l f(2) have no: "\<And>q. s_pc (sthr s q) \<noteq> S221" by (auto simp: inv_lock_def)
    have pc: "s_pc (sthr s' q) = S221 \<longleftrightarrow> q = r" for q
      using f(7) [of q] f(8) no [of q] by (cases "q = r") simp_all
    show ?thesis using f(3) by (simp add: inv_lock_def pc)
  next
    case (S_iter r)
    with st have e: "s_iter r s = Some s'" by simp
    note f = s_iter_eff [OF e]
    have pc: "s_pc (sthr s' q) = s_pc (sthr s q)" for q
      using f(5) [of q] f(1,6) by (cases "q = r") simp_all
    show ?thesis using l f(2) by (simp add: inv_lock_def pc)
  next
    case (S_split r)
    with st have e: "s_split r s = Some s'" by simp
    note f = s_split_eff [OF e]
    have pc: "s_pc (sthr s' q) = S221 \<longleftrightarrow> False" for q
      using f(3) [of q] f(1,4) l by (cases "q = r") (auto simp: inv_lock_def)
    show ?thesis by (simp add: inv_lock_def pc)
  next
    case (S_wait r)
    with st have e: "s_wait r s = Some s'" by simp
    note f = s_wait_eff [OF e]
    have pc: "s_pc (sthr s' q) = S221 \<longleftrightarrow> s_pc (sthr s q) = S221" for q
      using f(6) [of q] f(1,8) by (cases "q = r") simp_all
    show ?thesis using l f(2) by (simp add: inv_lock_def pc)
  next
    case (S_unlock r)
    with st have e: "s_unlock r s = Some s'" by simp
    note f = s_unlock_eff [OF e]
    have pc: "s_pc (sthr s' q) = S221 \<longleftrightarrow> s_pc (sthr s q) = S221" for q
      using f(5) [of q] f(1,7) by (cases "q = r") simp_all
    show ?thesis using l f(2) by (simp add: inv_lock_def pc)
  qed
qed

lemma wf_queue_cong:
  assumes "wf_queue c h xs" "c_head c' = c_head c" "c_tail c' = c_tail c"
    "\<And>x. prev (h' x) = prev (h x)" "\<And>x. next_w (h' x) = next_w (h x)"
  shows "wf_queue c' h' xs"
proof -
  have "dll h' None xs None = dll h None xs None"
    by (rule dll_cong) (simp add: assms(4,5))
  with assms(1-3) show ?thesis by (simp add: wf_queue_def)
qed

text \<open>Steps other than adding, removing and splitting leave the list as it is.\<close>

lemma step_list_frame:
  assumes st: "step act s = Some s'"
    and ne: "\<And>a. act \<noteq> W_enqueue a" "\<And>a. act \<noteq> W_remove a" "\<And>r. act \<noteq> S_split r"
  shows "attached s' = attached s" "c_head (cv s') = c_head (cv s)" "c_tail (cv s') = c_tail (cv s)"
    "prev (nodes s' x) = prev (nodes s x)" "next_w (nodes s' x) = next_w (nodes s x)"
proof -
  have "attached s' = attached s \<and> c_head (cv s') = c_head (cv s) \<and> c_tail (cv s') = c_tail (cv s)
      \<and> prev (nodes s' x) = prev (nodes s x) \<and> next_w (nodes s' x) = next_w (nodes s x)"
  proof (cases act)
    case (W_cas a)
    with st w_cas_eff [of a s s'] show ?thesis by simp
  next
    case (W_barrier a v)
    with st w_barrier_eff [of a v s s'] show ?thesis by simp
  next
    case (W_next a)
    with st w_next_eff [of a s s'] show ?thesis by simp
  next
    case (S_lock r n)
    with st s_lock_eff [of r n s s'] show ?thesis by simp
  next
    case (S_iter r)
    with st s_iter_eff [of r s s'] show ?thesis by (auto simp: walk_iter_fields)
  next
    case (S_unlock r)
    with st s_unlock_eff [of r s s'] show ?thesis by simp
  next
    case (W_enter a tid ts cst pend)
    with st w_enter_eff [of a tid ts cst pend s s'] show ?thesis by simp
  next
    case (W_munlock a lk)
    with st w_munlock_eff [of a lk s s'] show ?thesis by simp
  next
    case (W_wake a e)
    with st w_wake_eff [of a e s s'] show ?thesis by simp
  next
    case (W_notify a)
    with st w_notify_eff [of a s s'] show ?thesis by simp
  next
    case (W_mlock a tmp lk)
    with st w_mlock_eff [of a tmp lk s s'] show ?thesis by simp
  next
    case (W_inc a)
    with st w_inc_eff [of a s s'] show ?thesis by simp
  next
    case (W_done a pend)
    with st w_done_eff [of a pend s s'] show ?thesis by simp
  next
    case (S_wait r)
    with st s_wait_eff [of r s s'] show ?thesis by simp
  qed (use ne in simp_all)
  then show "attached s' = attached s" "c_head (cv s') = c_head (cv s)"
    "c_tail (cv s') = c_tail (cv s)"
    "prev (nodes s' x) = prev (nodes s x)" "next_w (nodes s' x) = next_w (nodes s x)"
    by simp_all
qed

lemma inv_nodeD:
  assumes "sys_inv s"
  shows "w_pc (wthr s a) = W77 \<Longrightarrow> a \<notin> set (attached s) \<and> prev (nodes s a) = None
           \<and> state (nodes s a) = WAITING \<and> notify (nodes s a) = None"
    and "w_pc (wthr s a) = W69 \<Longrightarrow> a \<notin> set (attached s) \<and> prev (nodes s a) = None
           \<and> state (nodes s a) = WAITING \<and> notify (nodes s a) = None"
    and "w_pc (wthr s a) = W127 \<Longrightarrow> state (nodes s a) = LEAVING \<and> w_oldstate (wthr s a) = WAITING"
    and "w_pc (wthr s a) = W150 \<Longrightarrow> state (nodes s a) = LEAVING \<and> w_oldstate (wthr s a) = WAITING
           \<and> a \<notin> set (attached s)"
    and "w_pc (wthr s a) \<noteq> W_fault"
proof -
  from assms have n: "inv_node s a" by (simp add: sys_inv_def)
  show "w_pc (wthr s a) = W77 \<Longrightarrow> a \<notin> set (attached s) \<and> prev (nodes s a) = None
           \<and> state (nodes s a) = WAITING \<and> notify (nodes s a) = None"
    using n by (simp add: inv_node_def Let_def)
  show "w_pc (wthr s a) = W69 \<Longrightarrow> a \<notin> set (attached s) \<and> prev (nodes s a) = None
           \<and> state (nodes s a) = WAITING \<and> notify (nodes s a) = None"
    using n by (simp add: inv_node_def Let_def)
  show "w_pc (wthr s a) = W127 \<Longrightarrow> state (nodes s a) = LEAVING \<and> w_oldstate (wthr s a) = WAITING"
    using n by (simp add: inv_node_def Let_def)
  show "w_pc (wthr s a) = W150 \<Longrightarrow> state (nodes s a) = LEAVING \<and> w_oldstate (wthr s a) = WAITING
           \<and> a \<notin> set (attached s)"
    using n by (simp add: inv_node_def Let_def)
  show "w_pc (wthr s a) \<noteq> W_fault"
    using n by (auto simp: inv_node_def Let_def)
qed

lemma enqueue_ok:
  assumes i: "sys_inv s" and pc: "w_pc (wthr s a) = W77"
  shows "\<exists>c' h'. enqueue_node a (cv s, nodes s) = Some (c', h')
           \<and> wf_queue c' h' (a # attached s)"
proof -
  from i have "wf_queue (cv s) (nodes s) (attached s)" by (simp add: sys_inv_def inv_list_def)
  from enqueue_wf [OF this] inv_nodeD(1) [OF i pc] show ?thesis by blast
qed

lemma filter_not_seen:
  "distinct (pre @ seen) \<Longrightarrow> filter (\<lambda>x. x \<notin> set seen) (pre @ seen) = pre"
  by (induction pre) (auto simp: filter_empty_conv)

lemma inv_list_step:
  assumes i: "sys_inv s" and st: "step act s = Some s'"
  shows "inv_list s'"
proof -
  from i have wf: "wf_queue (cv s) (nodes s) (attached s)" by (simp add: sys_inv_def inv_list_def)
  then have dist: "distinct (attached s)" by (simp add: wf_queue_def)
  consider (enq) a where "act = W_enqueue a" | (rem) a where "act = W_remove a"
    | (spl) r where "act = S_split r"
    | (other) "\<And>a. act \<noteq> W_enqueue a" "\<And>a. act \<noteq> W_remove a" "\<And>r. act \<noteq> S_split r"
    by blast
  then show ?thesis
  proof cases
    case enq
    with st have e: "w_enqueue a s = Some s'" by simp
    note f = w_enqueue_eff [OF e]
    from enqueue_ok [OF i f(1)] obtain c' h' where
      ch: "enqueue_node a (cv s, nodes s) = Some (c', h')" and w: "wf_queue c' h' (a # attached s)"
      by blast
    from f(7) [OF ch] w show ?thesis by (simp add: inv_list_def)
  next
    case rem
    with st have e: "w_remove a s = Some s'" by simp
    note f = w_remove_eff [OF e]
    show ?thesis
    proof (cases "a \<in> set (attached s)")
      case True
      then obtain pre post where sp: "attached s = pre @ a # post"
        by (auto simp: in_set_conv_decomp)
      with dist have "remove1 a (attached s) = pre @ post"
        by (simp add: remove1_append)
      with remove_node_attached [of "cv s" "nodes s" pre a post] wf sp f(7-9)
      show ?thesis by (simp add: inv_list_def)
    next
      case False
      from i have "inv_sep s" by (simp add: sys_inv_def)
      with False f(1) have
        "\<forall>b. prev (nodes s a) = Some b \<longrightarrow> b \<notin> set (attached s)"
        "\<forall>d. next_w (nodes s a) = Some d \<longrightarrow> d \<notin> set (attached s)"
        by (auto simp: inv_sep_def)
      from remove_node_detached [OF wf False this] False f(7-9)
      show ?thesis by (simp add: inv_list_def remove1_idem)
    qed
  next
    case spl
    with st have e: "s_split r s = Some s'" by simp
    note f = s_split_eff [OF e]
    from i f(1) obtain pre where pre: "attached s = pre @ s_seen (s_walk (sthr s r))"
      and p: "s_p (s_walk (sthr s r)) = (if pre = [] then None else Some (last pre))"
      by (auto simp: sys_inv_def inv_walk_def)
    from wf pre have "wf_queue (cv s) (nodes s) (pre @ s_seen (s_walk (sthr s r)))" by simp
    from split_list_wf(1) [OF this p]
    have "wf_queue (cv s') (nodes s') pre"
      by (rule wf_queue_cong) (simp_all add: f(6,7))
    moreover from dist pre have "attached s' = pre"
      using f(8) filter_not_seen [of pre "s_seen (s_walk (sthr s r))"] by simp
    ultimately show ?thesis by (simp add: inv_list_def)
  next
    case other
    from wf have "wf_queue (cv s') (nodes s') (attached s)"
      by (rule wf_queue_cong) (simp_all add: step_list_frame [OF st other])
    then show ?thesis by (simp add: inv_list_def step_list_frame(1) [OF st other])
  qed
qed

text \<open>Which nodes the three list operations write, and which pointers they store.\<close>

lemma remove_node_two_phases:
  fixes a c h
  defines "ch1 \<equiv> (if c_head c = Some a then (c\<lparr>c_head := next_w (h a)\<rparr>, h)
                 else (case prev (h a) of
                         Some b \<Rightarrow> (c, h(b := (h b)\<lparr>next_w := next_w (h a)\<rparr>))
                       | None \<Rightarrow> (c, h)))"
  shows "remove_node a (c, h) =
           (if c_tail (fst ch1) = Some a then ((fst ch1)\<lparr>c_tail := prev (h a)\<rparr>, snd ch1)
            else (case next_w (h a) of
                    Some d \<Rightarrow> (fst ch1, (snd ch1)(d := (snd ch1 d)\<lparr>prev := prev (h a)\<rparr>))
                  | None \<Rightarrow> ch1))"
    and "prev (h a) \<noteq> Some x \<Longrightarrow> snd ch1 x = h x"
    and "prev (snd ch1 x) = prev (h x)"
    and "next_w (snd ch1 x) = next_w (h x) \<or> next_w (snd ch1 x) = next_w (h a)"
proof -
  have a1: "next_w (snd ch1 a) = next_w (h a)" "prev (snd ch1 a) = prev (h a)"
    by (auto simp: ch1_def split: option.splits)
  show "remove_node a (c, h) =
           (if c_tail (fst ch1) = Some a then ((fst ch1)\<lparr>c_tail := prev (h a)\<rparr>, snd ch1)
            else (case next_w (h a) of
                    Some d \<Rightarrow> (fst ch1, (snd ch1)(d := (snd ch1 d)\<lparr>prev := prev (h a)\<rparr>))
                  | None \<Rightarrow> ch1))"
    unfolding remove_node_def Let_def fst_conv snd_conv ch1_def [symmetric] a1
    by (simp split: option.splits)
  show "prev (h a) \<noteq> Some x \<Longrightarrow> snd ch1 x = h x"
    by (auto simp: ch1_def split: option.splits)
  show "prev (snd ch1 x) = prev (h x)"
    by (auto simp: ch1_def split: option.splits)
  show "next_w (snd ch1 x) = next_w (h x) \<or> next_w (snd ch1 x) = next_w (h a)"
    by (auto simp: ch1_def split: option.splits)
qed

lemma remove_node_frame:
  assumes "prev (h a) \<noteq> Some x" "next_w (h a) \<noteq> Some x"
  shows "snd (remove_node a (c, h)) x = h x"
  using assms remove_node_two_phases(2) [of h a x c]
  by (simp add: remove_node_two_phases(1) split: option.splits)

lemma remove_node_ptrs:
  "prev (snd (remove_node a (c, h)) x) = prev (h x) \<or> prev (snd (remove_node a (c, h)) x) = prev (h a)"
  "next_w (snd (remove_node a (c, h)) x) = next_w (h x)
     \<or> next_w (snd (remove_node a (c, h)) x) = next_w (h a)"
  using remove_node_two_phases(3) [of c a h x] remove_node_two_phases(4) [of c a h x]
  by (auto simp: remove_node_two_phases(1) split: option.splits)

lemma split_list_frame:
  assumes "p \<noteq> Some x" "\<And>y. p = Some y \<Longrightarrow> next_w (h y) \<noteq> Some x"
  shows "snd (split_list p (c, h)) x = h x"
  using assms by (auto simp: split_list_def Let_def split: option.splits)

lemma split_list_ptrs:
  "prev (snd (split_list p (c, h)) x) = prev (h x) \<or> prev (snd (split_list p (c, h)) x) = None"
  "next_w (snd (split_list p (c, h)) x) = next_w (h x)
     \<or> next_w (snd (split_list p (c, h)) x) = None"
  by (auto simp: split_list_def Let_def split: option.splits)

lemma enqueue_node_frame:
  assumes "enqueue_node a (c, h) = Some (c', h')" "x \<noteq> a" "c_head c \<noteq> Some x"
  shows "h' x = h x"
  using assms by (auto simp: enqueue_node_def Let_def split: if_split_asm option.splits)

lemma enqueue_node_ptrs:
  assumes "enqueue_node a (c, h) = Some (c', h')"
  shows "prev (h' x) = prev (h x) \<or> prev (h' x) = Some a"
    "next_w (h' x) = next_w (h x) \<or> next_w (h' x) = c_head c"
  using assms by (auto simp: enqueue_node_def Let_def split: if_split_asm option.splits)

lemma invD:
  assumes "sys_inv s"
  shows "inv_list s" "inv_lock s" "inv_walk s" "inv_seen s" "inv_node s a" "inv_ptr s"
    "inv_sep s" "inv_ref s"
  using assms by (simp_all add: sys_inv_def)

lemma inv_wf: "sys_inv s \<Longrightarrow> wf_queue (cv s) (nodes s) (attached s)"
  by (simp add: sys_inv_def inv_list_def)

lemma inv_distinct: "sys_inv s \<Longrightarrow> distinct (attached s)"
  by (simp add: sys_inv_def inv_list_def wf_queue_def)

lemma attached_step:
  assumes i: "sys_inv s" and st: "step act s = Some s'"
  shows "set (attached s') \<subseteq> set (attached s) \<union> {a. act = W_enqueue a}"
proof -
  consider (enq) a where "act = W_enqueue a" | (rem) a where "act = W_remove a"
    | (spl) r where "act = S_split r"
    | (other) "\<And>a. act \<noteq> W_enqueue a" "\<And>a. act \<noteq> W_remove a" "\<And>r. act \<noteq> S_split r"
    by blast
  then show ?thesis
  proof cases
    case enq
    with st have e: "w_enqueue a s = Some s'" by simp
    note f = w_enqueue_eff [OF e]
    from enqueue_ok [OF i f(1)] obtain c' h' where
      ch: "enqueue_node a (cv s, nodes s) = Some (c', h')" by blast
    from f(7) [OF ch] enq show ?thesis by auto
  next
    case rem
    with st w_remove_eff(9) [of a s s'] set_remove1_subset [of a "attached s"] show ?thesis by auto
  next
    case spl
    with st s_split_eff(8) [of r s s'] show ?thesis by auto
  next
    case other
    from step_list_frame(1) [OF st other] show ?thesis by simp
  qed
qed

lemma seen_not_waiting:
  assumes "sys_inv s" "x \<in> set (s_seen (s_walk (sthr s r)))"
  shows "state (nodes s x) \<noteq> WAITING"
  using assms(2) invD(4) [OF assms(1)] unfolding inv_seen_def by fastforce

lemma locked_frame:
  assumes i: "sys_inv s" and st: "step act s = Some s'" and r: "s_pc (sthr s r) = S221"
    and na: "sactor act \<noteq> Some r"
  shows "attached s' = attached s" "c_head (cv s') = c_head (cv s)" "c_tail (cv s') = c_tail (cv s)"
    "prev (nodes s' x) = prev (nodes s x)" "next_w (nodes s' x) = next_w (nodes s x)"
proof -
  from invD(2) [OF i] r have lk: "c_lock (cv s) \<noteq> 0"
    and un: "\<And>q. s_pc (sthr s q) = S221 \<Longrightarrow> q = r"
    by (auto simp: inv_lock_def)
  have 1: "act \<noteq> W_enqueue a" for a
    using st lk w_enqueue_eff(2) [of a s s'] by auto
  have 2: "act \<noteq> W_remove a" for a
    using st lk w_remove_eff(2) [of a s s'] by auto
  have 3: "act \<noteq> S_split q" for q
    using st na un [of q] s_split_eff(1) [of q s s'] by auto
  note step_list_frame [OF st 1 2 3]
  then show "attached s' = attached s" "c_head (cv s') = c_head (cv s)"
    "c_tail (cv s') = c_tail (cv s)"
    "prev (nodes s' x) = prev (nodes s x)" "next_w (nodes s' x) = next_w (nodes s x)"
    by simp_all
qed

lemma inv_walk_step:
  assumes i: "sys_inv s" and st: "step act s = Some s'"
  shows "inv_walk s'"
  unfolding inv_walk_def
proof (intro allI)
  fix r
  let ?goal = "(s_pc (sthr s' r) = S221 \<longrightarrow>
         (\<exists>pre. attached s' = pre @ s_seen (s_walk (sthr s' r))
            \<and> s_p (s_walk (sthr s' r)) = (if pre = [] then None else Some (last pre))))
     \<and> (s_pc (sthr s' r) \<noteq> S221 \<longrightarrow>
           set (s_seen (s_walk (sthr s' r))) \<inter> set (attached s') = {})
     \<and> (s_pc (sthr s' r) = S220 \<longrightarrow> s_seen (s_walk (sthr s' r)) = [])"
  from invD(3) [OF i] have w: "(s_pc (sthr s r) = S221 \<longrightarrow>
         (\<exists>pre. attached s = pre @ s_seen (s_walk (sthr s r))
            \<and> s_p (s_walk (sthr s r)) = (if pre = [] then None else Some (last pre))))
     \<and> (s_pc (sthr s r) \<noteq> S221 \<longrightarrow>
           set (s_seen (s_walk (sthr s r))) \<inter> set (attached s) = {})
     \<and> (s_pc (sthr s r) = S220 \<longrightarrow> s_seen (s_walk (sthr s r)) = [])"
    by (simp add: inv_walk_def)
  note wf = inv_wf [OF i]
  show ?goal
  proof (cases "sactor act = Some r")
    case False
    note o = sthr_other [OF st False]
    show ?thesis
    proof (cases "s_pc (sthr s r) = S221")
      case True
      from locked_frame(1) [OF i st True False] w True o show ?thesis by simp
    next
      case nl: False
      have "x \<notin> set (attached s')" if "x \<in> set (s_seen (s_walk (sthr s r)))" for x
      proof
        assume "x \<in> set (attached s')"
        with attached_step [OF i st] consider "x \<in> set (attached s)" | "act = W_enqueue x"
          by auto
        then show False
        proof cases
          case 1
          with that w nl show False by auto
        next
          case 2
          with st have "w_pc (wthr s x) = W77" using w_enqueue_eff(1) [of x s s'] by simp
          from inv_nodeD(1) [OF i this] seen_not_waiting [OF i that] show False by simp
        qed
      qed
      with w nl o show ?thesis by auto
    qed
  next
    case True
    then consider (lock) n where "act = S_lock r n" | (iter) "act = S_iter r"
      | (split) "act = S_split r" | (wait) "act = S_wait r" | (unlock) "act = S_unlock r"
      by (cases act) auto
    then show ?thesis
    proof cases
      case lock
      with st have e: "s_lock r n s = Some s'" by simp
      note f = s_lock_eff [OF e]
      from wf have "c_tail (cv s) = (if attached s = [] then None else Some (last (attached s)))"
        by (simp add: wf_queue_def)
      with f show ?thesis by simp
    next
      case iter
      with st have e: "s_iter r s = Some s'" by simp
      note f = s_iter_eff [OF e]
      from f(7) obtain x where x: "s_p (s_walk (sthr s r)) = Some x"
        and w': "s_walk (sthr s' r) = snd (walk_iter r x (nodes s, s_walk (sthr s r)))"
        by blast
      from w f(1) obtain pre where pre: "attached s = pre @ s_seen (s_walk (sthr s r))"
        and p: "s_p (s_walk (sthr s r)) = (if pre = [] then None else Some (last pre))"
        by blast
      from x p have ne: "pre \<noteq> []" and lx: "last pre = x" by (auto split: if_split_asm)
      then have pre': "pre = butlast pre @ [x]" by (metis append_butlast_last_id)
      with pre have att: "attached s = butlast pre @ x # s_seen (s_walk (sthr s r))"
        by (metis append.assoc append_Cons append_Nil)
      from wf_queue_mid(1) [of "cv s" "nodes s" "butlast pre" x "s_seen (s_walk (sthr s r))"] wf att
      have "prev (nodes s x) = (if butlast pre = [] then None else Some (last (butlast pre)))"
        by simp
      with att w' f(4,6) show ?thesis by (auto simp: walk_iter_n)
    next
      case split
      with st have e: "s_split r s = Some s'" by simp
      note f = s_split_eff [OF e]
      from w f(1) obtain pre where pre: "attached s = pre @ s_seen (s_walk (sthr s r))" by blast
      with inv_distinct [OF i] have "distinct (pre @ s_seen (s_walk (sthr s r)))" by simp
      with pre f(8) have "attached s' = pre" "set pre \<inter> set (s_seen (s_walk (sthr s r))) = {}"
        using filter_not_seen [of pre "s_seen (s_walk (sthr s r))"] by auto
      with f(4,5) show ?thesis by auto
    next
      case wait
      with st have e: "s_wait r s = Some s'" by simp
      note f = s_wait_eff [OF e]
      from f w show ?thesis by (auto split: if_split_asm)
    next
      case unlock
      with st have e: "s_unlock r s = Some s'" by simp
      note f = s_unlock_eff [OF e]
      from f w show ?thesis by auto
    qed
  qed
qed

lemma step_notify_frame:
  assumes st: "step act s = Some s'" and ne: "\<And>r. act \<noteq> S_iter r"
  shows "notify (nodes s' x) = notify (nodes s x)"
proof (cases act)
  case (W_enqueue a)
  with st show ?thesis
    by (auto simp: w_enqueue_def upd_defs enqueue_node_fields split: if_split_asm option.splits)
next
  case (W_remove a)
  with st w_remove_eff(8) [of a s s'] show ?thesis
    by (simp add: remove_node_fields [OF surjective_pairing])
next
  case (S_split r)
  with st s_split_eff(7) [of r s s'] show ?thesis by (simp add: split_list_fields)
next
  case (W_cas a)
  with st w_cas_eff(8) [of a s s'] show ?thesis by simp
next
  case (W_barrier a v)
  with st w_barrier_eff(8) [of a v s s'] show ?thesis by simp
next
  case (W_next a)
  with st w_next_eff(11) [of a s s'] show ?thesis by simp
next
  case (S_unlock r)
  with st s_unlock_eff(11) [of r s s'] show ?thesis by simp
next
  case (S_lock r n)
  with st s_lock_eff(4) [of r n s s'] show ?thesis by simp
next
  case (W_enter a tid ts cst pend)
  with st w_enter_eff(3) [of a tid ts cst pend s s'] show ?thesis by simp
next
  case (W_munlock a lk)
  with st w_munlock_eff(3) [of a lk s s'] show ?thesis by simp
next
  case (W_wake a e)
  with st w_wake_eff(3) [of a e s s'] show ?thesis by simp
next
  case (W_notify a)
  with st w_notify_eff(3) [of a s s'] show ?thesis by simp
next
  case (W_mlock a tmp lk)
  with st w_mlock_eff(3) [of a tmp lk s s'] show ?thesis by simp
next
  case (W_inc a)
  with st w_inc_eff(3) [of a s s'] show ?thesis by simp
next
  case (W_done a pend)
  with st w_done_eff(3) [of a pend s s'] show ?thesis by simp
next
  case (S_wait r)
  with st s_wait_eff(3) [of r s s'] show ?thesis by simp
qed (use ne in simp)

lemma step_seen_frame:
  assumes st: "step act s = Some s'" and ne: "\<And>n. act \<noteq> S_lock r n" "act \<noteq> S_iter r"
  shows "s_seen (s_walk (sthr s' r)) = s_seen (s_walk (sthr s r))"
    "s_p (s_walk (sthr s' r)) = s_p (s_walk (sthr s r))"
proof -
  have "s_seen (s_walk (sthr s' r)) = s_seen (s_walk (sthr s r))
      \<and> s_p (s_walk (sthr s' r)) = s_p (s_walk (sthr s r))"
  proof (cases "sactor act = Some r")
    case False
    from sthr_other [OF st False] show ?thesis by simp
  next
    case True
    with ne consider "act = S_split r" | "act = S_wait r" | "act = S_unlock r"
      by (cases act) auto
    then show ?thesis
    proof cases
      case 1 with st s_split_eff(5) [of r s s'] show ?thesis by simp
    next
      case 2 with st s_wait_eff(7) [of r s s'] show ?thesis by simp
    next
      case 3 with st s_unlock_eff(6) [of r s s'] show ?thesis by simp
    qed
  qed
  then show "s_seen (s_walk (sthr s' r)) = s_seen (s_walk (sthr s r))"
    "s_p (s_walk (sthr s' r)) = s_p (s_walk (sthr s r))" by simp_all
qed

lemma step_spc_221:
  assumes st: "step act s = Some s'" and ne: "\<And>n. act \<noteq> S_lock r n" "act \<noteq> S_split r"
  shows "s_pc (sthr s' r) = S221 \<longleftrightarrow> s_pc (sthr s r) = S221"
proof (cases "sactor act = Some r")
  case False
  from sthr_other(1) [OF st False] show ?thesis by simp
next
  case True
  with ne consider "act = S_iter r" | "act = S_wait r" | "act = S_unlock r"
    by (cases act) auto
  then show ?thesis
  proof cases
    case 1 with st s_iter_eff(1,6) [of r s s'] show ?thesis by simp
  next
    case 2 with st s_wait_eff(1,8) [of r s s'] show ?thesis by simp
  next
    case 3 with st s_unlock_eff(1,7) [of r s s'] show ?thesis by simp
  qed
qed

lemma inv_seen_cong:
  assumes "inv_seen s"
    and "\<And>x. state (nodes s' x) = state (nodes s x)"
    and "\<And>x. notify (nodes s' x) = notify (nodes s x)"
    and "\<And>r. s_seen (s_walk (sthr s' r)) = s_seen (s_walk (sthr s r))"
    and "set (attached s') \<subseteq> set (attached s)"
    and "\<And>r. s_pc (sthr s r) = S221 \<Longrightarrow> s_pc (sthr s' r) = S221"
  shows "inv_seen s'"
  using assms(1,5,6) unfolding inv_seen_def assms(2-4) by blast

lemma inv_seenD:
  assumes "sys_inv s"
  shows "x \<in> set (s_seen (s_walk (sthr s r))) \<Longrightarrow>
           state (nodes s x) = SIGNALED \<or> (state (nodes s x) = LEAVING \<and> notify (nodes s x) = Some r)"
    and "notify (nodes s a) = Some r \<Longrightarrow>
           state (nodes s a) = LEAVING \<and> a \<in> set (s_seen (s_walk (sthr s r)))"
    and "a \<in> set (attached s) \<Longrightarrow> state (nodes s a) = SIGNALED \<Longrightarrow>
           \<exists>r. s_pc (sthr s r) = S221 \<and> a \<in> set (s_seen (s_walk (sthr s r)))"
  using invD(4) [OF assms] unfolding inv_seen_def by blast+

lemma inv_walkD:
  assumes "sys_inv s"
  shows "s_pc (sthr s r) = S221 \<Longrightarrow>
           \<exists>pre. attached s = pre @ s_seen (s_walk (sthr s r))
              \<and> s_p (s_walk (sthr s r)) = (if pre = [] then None else Some (last pre))"
    and "s_pc (sthr s r) \<noteq> S221 \<Longrightarrow> set (s_seen (s_walk (sthr s r))) \<inter> set (attached s) = {}"
    and "s_pc (sthr s r) = S220 \<Longrightarrow> s_seen (s_walk (sthr s r)) = []"
  using invD(3) [OF assms] unfolding inv_walk_def by blast+

lemma inv_lockD:
  assumes "sys_inv s"
  shows "s_pc (sthr s r) = S221 \<Longrightarrow> c_lock (cv s) \<noteq> 0"
    and "s_pc (sthr s r) = S221 \<Longrightarrow> s_pc (sthr s q) = S221 \<Longrightarrow> q = r"
  using invD(2) [OF assms] unfolding inv_lock_def by blast+

text \<open>The node that the loop visits next: attached, not yet visited, and not SIGNALED.\<close>

lemma walk_next:
  assumes i: "sys_inv s" and r: "s_pc (sthr s r) = S221" and x: "s_p (s_walk (sthr s r)) = Some x"
  shows "x \<in> set (attached s)" "x \<notin> set (s_seen (s_walk (sthr s r)))"
    "state (nodes s x) \<noteq> SIGNALED" "\<And>q. x \<notin> set (s_seen (s_walk (sthr s q)))"
    "notify (nodes s x) = None"
proof -
  from inv_walkD(1) [OF i r] obtain pre where pre: "attached s = pre @ s_seen (s_walk (sthr s r))"
    and p: "s_p (s_walk (sthr s r)) = (if pre = [] then None else Some (last pre))"
    by blast
  from x p have ne: "pre \<noteq> []" and lx: "last pre = x" by (auto split: if_split_asm)
  then have xp: "x \<in> set pre" by auto
  with pre show att: "x \<in> set (attached s)" by simp
  from inv_distinct [OF i] pre xp show ns: "x \<notin> set (s_seen (s_walk (sthr s r)))" by auto
  show nq: "x \<notin> set (s_seen (s_walk (sthr s q)))" for q
  proof (cases "s_pc (sthr s q) = S221")
    case True
    from inv_lockD(2) [OF i r True] ns show ?thesis by simp
  next
    case False
    from inv_walkD(2) [OF i False] att show ?thesis by auto
  qed
  show "state (nodes s x) \<noteq> SIGNALED"
  proof
    assume "state (nodes s x) = SIGNALED"
    from inv_seenD(3) [OF i att this] nq show False by blast
  qed
  show "notify (nodes s x) = None"
  proof (cases "notify (nodes s x)")
    case None then show ?thesis .
  next
    case (Some q)
    from inv_seenD(2) [OF i Some] nq show ?thesis by blast
  qed
qed

lemma inv_seen_other:
  assumes i: "sys_inv s" and st: "step act s = Some s'"
    and other: "\<And>a. act \<noteq> W_cas a" "\<And>a. act \<noteq> W_enqueue a" "\<And>r n. act \<noteq> S_lock r n"
        "\<And>r. act \<noteq> S_iter r" "\<And>r. act \<noteq> S_split r"
  shows "inv_seen s'"
proof -
  note isn = invD(4) [OF i]
  show ?thesis
  proof (rule inv_seen_cong [OF isn])
    show "state (nodes s' x) = state (nodes s x)" for x
      using step_state [OF st, of x] other by simp
    show "notify (nodes s' x) = notify (nodes s x)" for x
      using step_notify_frame [OF st] other by simp
    show "s_seen (s_walk (sthr s' r)) = s_seen (s_walk (sthr s r))" for r
      using step_seen_frame(1) [OF st] other by simp
    show "set (attached s') \<subseteq> set (attached s)"
      using attached_step [OF i st] other by auto
    show "s_pc (sthr s r) = S221 \<Longrightarrow> s_pc (sthr s' r) = S221" for r
      using step_spc_221 [OF st] other by simp
  qed
qed

lemma inv_seen_cong2:
  assumes "inv_seen s"
    and "\<And>x. state (nodes s x) \<noteq> WAITING \<Longrightarrow> state (nodes s' x) = state (nodes s x)"
    and "\<And>x. state (nodes s' x) = SIGNALED \<Longrightarrow> state (nodes s x) = SIGNALED"
    and "\<And>x. notify (nodes s' x) = notify (nodes s x)"
    and "\<And>r. s_seen (s_walk (sthr s' r)) = s_seen (s_walk (sthr s r))"
    and "\<And>x. x \<in> set (attached s') \<Longrightarrow> state (nodes s x) = SIGNALED \<Longrightarrow> x \<in> set (attached s)"
    and "\<And>r. s_pc (sthr s r) = S221 \<Longrightarrow> s_pc (sthr s' r) = S221"
  shows "inv_seen s'"
  proof -
  have p1: "state (nodes s' x) = SIGNALED
      \<or> (state (nodes s' x) = LEAVING \<and> notify (nodes s' x) = Some r)"
    if "x \<in> set (s_seen (s_walk (sthr s' r)))" for r x
  proof -
    from that have "x \<in> set (s_seen (s_walk (sthr s r)))" by (simp add: assms(5))
    with assms(1) have "state (nodes s x) = SIGNALED
        \<or> (state (nodes s x) = LEAVING \<and> notify (nodes s x) = Some r)"
      unfolding inv_seen_def by blast
    then show ?thesis using assms(2) [of x] by (auto simp: assms(4))
  qed
  have p2: "state (nodes s' a) = LEAVING \<and> a \<in> set (s_seen (s_walk (sthr s' r)))"
    if "notify (nodes s' a) = Some r" for a r
  proof -
    from that have "notify (nodes s a) = Some r" by (simp add: assms(4))
    with assms(1) have "state (nodes s a) = LEAVING \<and> a \<in> set (s_seen (s_walk (sthr s r)))"
      unfolding inv_seen_def by blast
    then show ?thesis using assms(2) [of a] by (simp add: assms(5))
  qed
  have p3: "\<exists>r. s_pc (sthr s' r) = S221 \<and> a \<in> set (s_seen (s_walk (sthr s' r)))"
    if a: "a \<in> set (attached s')" "state (nodes s' a) = SIGNALED" for a
  proof -
    from a have sg: "state (nodes s a) = SIGNALED" using assms(3) by blast
    with a assms(6) have "a \<in> set (attached s)" by blast
    with sg assms(1) obtain r where "s_pc (sthr s r) = S221" "a \<in> set (s_seen (s_walk (sthr s r)))"
      unfolding inv_seen_def by blast
    then show ?thesis using assms(7) by (auto simp: assms(5))
  qed
  from p1 p2 p3 show ?thesis unfolding inv_seen_def by blast
qed


lemma inv_seen_cas:
  assumes i: "sys_inv s" and st: "step act s = Some s'"
    and cas: "act = W_cas a"
  shows "inv_seen s'"
proof -
  from st cas have e: "w_cas a s = Some s'" by simp
  note f = w_cas_eff [OF e]
  show ?thesis
    by (rule inv_seen_cong2 [OF invD(4) [OF i]]) (auto simp: f(3,4,8) split: if_split_asm)
qed

lemma inv_seen_enq:
  assumes i: "sys_inv s" and st: "step act s = Some s'"
    and enq: "act = W_enqueue a"
  shows "inv_seen s'"
proof -
  from st enq have e: "w_enqueue a s = Some s'" by simp
  note f = w_enqueue_eff [OF e]
  from enqueue_ok [OF i f(1)] obtain c' h' where
    ch: "enqueue_node a (cv s, nodes s) = Some (c', h')" by blast
  note g = f(7) [OF ch]
  note na = inv_nodeD(1) [OF i f(1)]
  have stt: "state (nodes s' x) = state (nodes s x)" for x
    using g na enqueue_node_fields(1) [OF ch, of x] by simp
  have nt: "notify (nodes s' x) = notify (nodes s x)" for x
    using g enqueue_node_fields(3) [OF ch, of x] by simp
  show ?thesis
    by (rule inv_seen_cong2 [OF invD(4) [OF i]]) (use g na in \<open>auto simp: stt nt f(3)\<close>)
qed

lemma inv_seen_lock:
  assumes i: "sys_inv s" and st: "step act s = Some s'"
    and lock: "act = S_lock r n"
  shows "inv_seen s'"
proof -
  note isn = invD(4) [OF i]
  from st lock have e: "s_lock r n s = Some s'" by simp
  note f = s_lock_eff [OF e]
  have sr: "s_seen (s_walk (sthr s r)) = []" by (rule inv_walkD(3) [OF i f(1)])
  have seen: "s_seen (s_walk (sthr s' q)) = s_seen (s_walk (sthr s q))" for q
    using f(7) [of q] f(8) sr by (cases "q = r") simp_all
  have pc: "s_pc (sthr s q) = S221 \<Longrightarrow> s_pc (sthr s' q) = S221" for q
    using f(7) [of q] f(8) by (cases "q = r") simp_all
  show ?thesis
    by (rule inv_seen_cong [OF isn]) (simp_all add: f(4,6) seen pc)
qed

lemma inv_seen_split:
  assumes i: "sys_inv s" and st: "step act s = Some s'"
    and split: "act = S_split r"
  shows "inv_seen s'"
proof -
  from st split have e: "s_split r s = Some s'" by simp
  note f = s_split_eff [OF e]
  have seen: "s_seen (s_walk (sthr s' q)) = s_seen (s_walk (sthr s q))" for q
    using f(3) [of q] f(5) by (cases "q = r") simp_all
  have stt: "state (nodes s' x) = state (nodes s x)" for x
    by (simp add: f(7) split_list_fields)
  have nt: "notify (nodes s' x) = notify (nodes s x)" for x
    by (simp add: f(7) split_list_fields)
  have none: "\<not> (b \<in> set (attached s') \<and> state (nodes s b) = SIGNALED)" for b
  proof
    assume b: "b \<in> set (attached s') \<and> state (nodes s b) = SIGNALED"
    with f(8) have ba: "b \<in> set (attached s)" "b \<notin> set (s_seen (s_walk (sthr s r)))"
      by auto
    from inv_seenD(3) [OF i ba(1)] b obtain q where
      q: "s_pc (sthr s q) = S221" "b \<in> set (s_seen (s_walk (sthr s q)))" by blast
    from inv_lockD(2) [OF i f(1) q(1)] q(2) ba(2) show False by simp
  qed
  have p1: "state (nodes s' x) = SIGNALED
        \<or> (state (nodes s' x) = LEAVING \<and> notify (nodes s' x) = Some q)"
    if "x \<in> set (s_seen (s_walk (sthr s' q)))" for q x
  proof -
    from that have "x \<in> set (s_seen (s_walk (sthr s q)))" by (simp add: seen)
    from inv_seenD(1) [OF i this] show ?thesis by (simp add: stt nt)
  qed
  have p2: "state (nodes s' b) = LEAVING \<and> b \<in> set (s_seen (s_walk (sthr s' q)))"
    if "notify (nodes s' b) = Some q" for b q
  proof -
    from that have "notify (nodes s b) = Some q" by (simp add: nt)
    from inv_seenD(2) [OF i this] show ?thesis by (simp add: stt seen)
  qed
  have p3: "\<not> (b \<in> set (attached s') \<and> state (nodes s' b) = SIGNALED)" for b
    using none [of b] by (simp add: stt)
  from p1 p2 p3 show ?thesis unfolding inv_seen_def by blast
qed

lemma inv_seen_iter:
  assumes i: "sys_inv s" and st: "step act s = Some s'"
    and iter: "act = S_iter r"
  shows "inv_seen s'"
proof -
  note isn = invD(4) [OF i]
  from st iter have e: "s_iter r s = Some s'" by simp
  note f = s_iter_eff [OF e]
  from f(7) obtain x where x: "s_p (s_walk (sthr s r)) = Some x"
    and h': "nodes s' = fst (walk_iter r x (nodes s, s_walk (sthr s r)))"
    and w': "s_walk (sthr s' r) = snd (walk_iter r x (nodes s, s_walk (sthr s r)))"
    by blast
  note nx = walk_next [OF i f(1) x]
  have stt: "state (nodes s' y) = (if y = x \<and> state (nodes s x) = WAITING then SIGNALED
      else state (nodes s y))" for y
    by (simp add: h' walk_iter_fields)
  have nt: "notify (nodes s' y) = (if y = x \<and> state (nodes s x) \<noteq> WAITING then Some r
      else notify (nodes s y))" for y
    by (simp add: h' walk_iter_fields)
  have seen: "s_seen (s_walk (sthr s' q)) = (if q = r then x # s_seen (s_walk (sthr s r))
      else s_seen (s_walk (sthr s q)))" for q
    using f(5) [of q] w' by (simp add: walk_iter_n)
  have pc: "s_pc (sthr s' q) = s_pc (sthr s q)" for q
    using f(5) [of q] f(1,6) by (cases "q = r") simp_all
  have xl: "state (nodes s x) \<noteq> WAITING \<Longrightarrow> state (nodes s x) = LEAVING"
    using nx(3) by (cases "state (nodes s x)") simp_all
  have p1: "state (nodes s' y) = SIGNALED
        \<or> (state (nodes s' y) = LEAVING \<and> notify (nodes s' y) = Some q)"
    if y: "y \<in> set (s_seen (s_walk (sthr s' q)))" for q y
  proof (cases "y = x")
    case True
    with y nx(4) [of q] seen [of q] have "q = r" by (auto split: if_split_asm)
    with True xl show ?thesis by (auto simp: stt nt)
  next
    case False
    with y seen [of q] have "y \<in> set (s_seen (s_walk (sthr s q)))"
      by (auto split: if_split_asm)
    from inv_seenD(1) [OF i this] False show ?thesis by (simp add: stt nt)
  qed
  have p2: "state (nodes s' b) = LEAVING \<and> b \<in> set (s_seen (s_walk (sthr s' q)))"
    if b: "notify (nodes s' b) = Some q" for b q
  proof (cases "b = x")
    case True
    with b nx(5) have "q = r" "state (nodes s x) \<noteq> WAITING"
      by (auto simp: nt split: if_split_asm)
    with True xl show ?thesis by (simp add: stt seen)
  next
    case False
    with b have "notify (nodes s b) = Some q" by (simp add: nt)
    from inv_seenD(2) [OF i this] False show ?thesis by (auto simp: stt seen)
  qed
  have p3: "\<exists>q. s_pc (sthr s' q) = S221 \<and> b \<in> set (s_seen (s_walk (sthr s' q)))"
    if b: "b \<in> set (attached s')" "state (nodes s' b) = SIGNALED" for b
  proof (cases "b = x")
    case True
    with f(1) show ?thesis by (intro exI [of _ r]) (simp add: pc seen)
  next
    case False
    with b f(4) have "b \<in> set (attached s)" "state (nodes s b) = SIGNALED"
      by (simp_all add: stt)
    from inv_seenD(3) [OF i this] obtain q where
      "s_pc (sthr s q) = S221" "b \<in> set (s_seen (s_walk (sthr s q)))" by blast
    then show ?thesis by (intro exI [of _ q]) (auto simp: pc seen)
  qed
  from p1 p2 p3 show ?thesis unfolding inv_seen_def by blast
qed

lemma inv_seen_step:
  assumes i: "sys_inv s" and st: "step act s = Some s'"
  shows "inv_seen s'"
proof -
  consider (cas) a where "act = W_cas a" | (enq) a where "act = W_enqueue a"
    | (lock) r n where "act = S_lock r n" | (iter) r where "act = S_iter r"
    | (split) r where "act = S_split r"
    | (other) "\<And>a. act \<noteq> W_cas a" "\<And>a. act \<noteq> W_enqueue a" "\<And>r n. act \<noteq> S_lock r n"
        "\<And>r. act \<noteq> S_iter r" "\<And>r. act \<noteq> S_split r"
    by blast
  then show ?thesis
  proof cases
    case other from inv_seen_other [OF i st other] show ?thesis .
  next
    case cas from inv_seen_cas [OF i st cas] show ?thesis .
  next
    case enq from inv_seen_enq [OF i st enq] show ?thesis .
  next
    case lock from inv_seen_lock [OF i st lock] show ?thesis .
  next
    case split from inv_seen_split [OF i st split] show ?thesis .
  next
    case iter from inv_seen_iter [OF i st iter] show ?thesis .
  qed
qed

lemma inv_ptrD:
  assumes "sys_inv s"
  shows "prev (nodes s a) = Some b \<Longrightarrow> w_pc (wthr s b) \<noteq> W69 \<and> w_pc (wthr s b) \<noteq> W77"
    and "next_w (nodes s a) = Some b \<Longrightarrow> w_pc (wthr s b) \<noteq> W69 \<and> w_pc (wthr s b) \<noteq> W77"
  using invD(6) [OF assms] unfolding inv_ptr_def by blast+

lemma attached_pc:
  assumes "sys_inv s" "a \<in> set (attached s)"
  shows "w_pc (wthr s a) \<noteq> W69" "w_pc (wthr s a) \<noteq> W77"
  using inv_nodeD(1,2) [OF assms(1), of a] assms(2) by auto

text \<open>The node of a call that has not reached line 77 is written by no other thread.\<close>

lemma fresh_untouched:
  assumes i: "sys_inv s" and st: "step act s = Some s'"
    and pc: "w_pc (wthr s a) = W69 \<or> w_pc (wthr s a) = W77" and na: "wactor act \<noteq> Some a"
  shows "prev (nodes s' a) = prev (nodes s a)" "state (nodes s' a) = state (nodes s a)"
    "notify (nodes s' a) = notify (nodes s a)"
proof -
  from pc inv_nodeD(1,2) [OF i, of a] have natt: "a \<notin> set (attached s)" by auto
  have nptr: "prev (nodes s b) \<noteq> Some a" "next_w (nodes s b) \<noteq> Some a" for b
    using inv_ptrD [OF i, of b a] pc by auto
  have "prev (nodes s' a) = prev (nodes s a) \<and> state (nodes s' a) = state (nodes s a)
    \<and> notify (nodes s' a) = notify (nodes s a)"
  proof (cases act)
    case (W_enqueue b)
    with st have e: "w_enqueue b s = Some s'" by simp
    note f = w_enqueue_eff [OF e]
    from enqueue_ok [OF i f(1)] obtain c' h' where
      ch: "enqueue_node b (cv s, nodes s) = Some (c', h')" by blast
    from W_enqueue na have "a \<noteq> b" by simp
    moreover from wf_queue_ends(1) [OF inv_wf [OF i]] natt have "c_head (cv s) \<noteq> Some a" by blast
    ultimately show ?thesis
      using f(7) [OF ch] enqueue_node_frame [OF ch, of a] by simp
  next
    case (W_remove b)
    with st w_remove_eff(8) [of b s s'] remove_node_frame [of "nodes s" b a "cv s"] nptr
    show ?thesis by simp
  next
    case (S_split r)
    with st have e: "s_split r s = Some s'" by simp
    note f = s_split_eff [OF e]
    from inv_walkD(1) [OF i f(1)] natt have "s_p (s_walk (sthr s r)) \<noteq> Some a"
      by (auto split: if_split_asm)
    with f(7) split_list_frame [of "s_p (s_walk (sthr s r))" a "nodes s" "cv s"] nptr
    show ?thesis by simp
  next
    case (S_iter r)
    with st have e: "s_iter r s = Some s'" by simp
    note f = s_iter_eff [OF e]
    from f(7) obtain x where x: "s_p (s_walk (sthr s r)) = Some x"
      and h': "nodes s' = fst (walk_iter r x (nodes s, s_walk (sthr s r)))" by blast
    from walk_next(1) [OF i f(1) x] natt have "x \<noteq> a" by auto
    with h' show ?thesis by (simp add: walk_iter_def a_cas_def Let_def)
  next
    case (W_cas b)
    with st na w_cas_eff(8) [of b s s'] show ?thesis by auto
  next
    case (W_barrier b v)
    with st na w_barrier_eff(8) [of b v s s'] show ?thesis by auto
  next
    case (W_next b)
    with st w_next_eff(8,10,11) [of b s s'] show ?thesis by simp
  next
    case (S_unlock r)
    with st s_unlock_eff(8,10,11) [of r s s'] show ?thesis by simp
  next
    case (S_lock r n)
    with st s_lock_eff(4) [of r n s s'] show ?thesis by simp
  next
    case (W_enter b tid ts cst pend)
    with st w_enter_eff(3) [of b tid ts cst pend s s'] show ?thesis by simp
  next
    case (W_munlock b lk)
    with st w_munlock_eff(3) [of b lk s s'] show ?thesis by simp
  next
    case (W_wake b e)
    with st w_wake_eff(3) [of b e s s'] show ?thesis by simp
  next
    case (W_notify b)
    with st w_notify_eff(3) [of b s s'] show ?thesis by simp
  next
    case (W_mlock b tmp lk)
    with st w_mlock_eff(3) [of b tmp lk s s'] show ?thesis by simp
  next
    case (W_inc b)
    with st w_inc_eff(3) [of b s s'] show ?thesis by simp
  next
    case (W_done b pend)
    with st w_done_eff(3) [of b pend s s'] show ?thesis by simp
  next
    case (S_wait r)
    with st s_wait_eff(3) [of r s s'] show ?thesis by simp
  qed
  then show "prev (nodes s' a) = prev (nodes s a)" "state (nodes s' a) = state (nodes s a)"
    "notify (nodes s' a) = notify (nodes s a)" by simp_all
qed

lemma attached_other:
  assumes i: "sys_inv s" and st: "step act s = Some s'" and na: "wactor act \<noteq> Some a"
  shows "a \<in> set (attached s') \<longleftrightarrow>
     a \<in> set (attached s) \<and> \<not> (\<exists>r. act = S_split r \<and> a \<in> set (s_seen (s_walk (sthr s r))))"
proof -
  consider (enq) b where "act = W_enqueue b" | (rem) b where "act = W_remove b"
    | (spl) r where "act = S_split r"
    | (other) "\<And>a. act \<noteq> W_enqueue a" "\<And>a. act \<noteq> W_remove a" "\<And>r. act \<noteq> S_split r"
    by blast
  then show ?thesis
  proof cases
    case enq
    with st have e: "w_enqueue b s = Some s'" by simp
    note f = w_enqueue_eff [OF e]
    from enqueue_ok [OF i f(1)] obtain c' h' where
      ch: "enqueue_node b (cv s, nodes s) = Some (c', h')" by blast
    from f(7) [OF ch] enq na show ?thesis by auto
  next
    case rem
    with st w_remove_eff(9) [of b s s'] na show ?thesis by (auto simp: in_set_remove1)
  next
    case spl
    with st s_split_eff(8) [of r s s'] show ?thesis by auto
  next
    case other
    from step_list_frame(1) [OF st other] other show ?thesis by simp
  qed
qed

lemma state_other:
  assumes i: "sys_inv s" and st: "step act s = Some s'" and na: "wactor act \<noteq> Some a"
  shows "state (nodes s' a) = state (nodes s a)
     \<or> (state (nodes s a) = WAITING \<and> state (nodes s' a) = SIGNALED \<and> a \<in> set (attached s))"
proof -
  from na have ne: "act \<noteq> W_enqueue a" "act \<noteq> W_cas a" by auto
  show ?thesis
  proof (cases "\<exists>r. act = S_iter r \<and> s_p (s_walk (sthr s r)) = Some a")
    case True
    then obtain r where r: "act = S_iter r" "s_p (s_walk (sthr s r)) = Some a" by blast
    with st have "s_pc (sthr s r) = S221" using s_iter_eff(1) [of r s s'] by simp
    from walk_next(1) [OF i this r(2)] step_state [OF st, of a] ne show ?thesis by auto
  next
    case False
    with step_state [OF st, of a] ne show ?thesis by auto
  qed
qed

lemma inv_node_other:
  assumes i: "sys_inv s" and st: "step act s = Some s'" and na: "wactor act \<noteq> Some a"
  shows "inv_node s' a"
proof -
  note n = invD(5) [OF i, of a]
  note t = wthr_other [OF st na]
  note att = attached_other [OF i st na]
  note stt = state_other [OF i st na]
  have seen: "state (nodes s a) \<noteq> WAITING"
    if "act = S_split r" "a \<in> set (s_seen (s_walk (sthr s r)))" for r
    using seen_not_waiting [OF i that(2)] .
  show ?thesis
  proof (cases "w_pc (wthr s a) = W69 \<or> w_pc (wthr s a) = W77")
    case True
    note fr = fresh_untouched [OF i st True na]
    from True n att show ?thesis
      by (auto simp: inv_node_def Let_def t fr)
  next
    case False
    with n stt att seen show ?thesis
      unfolding inv_node_def Let_def t
      by (cases "w_pc (wthr s a)") auto
  qed
qed

lemma inv_node_own:
  assumes i: "sys_inv s" and st: "step act s = Some s'" and ac: "wactor act = Some a"
  shows "inv_node s' a"
proof -
  note n = invD(5) [OF i, of a]
  show ?thesis
  proof (cases act)
    case (W_enter b tid ts cst pend)
    with st ac have e: "w_enter a tid ts cst pend s = Some s'" by simp
    note f = w_enter_eff [OF e]
    from n f(1) f(7) show ?thesis
      by (auto simp: inv_node_def Let_def f(3,5,8))
  next
    case (W_enqueue b)
    with st ac have e: "w_enqueue a s = Some s'" by simp
    note f = w_enqueue_eff [OF e]
    from enqueue_ok [OF i f(1)] obtain c' h' where
      ch: "enqueue_node a (cv s, nodes s) = Some (c', h')" by blast
    from f(7) [OF ch] enqueue_node_fields(1) [OF ch, of a] show ?thesis
      by (simp add: inv_node_def Let_def)
  next
    case (W_munlock b lk)
    with st ac have e: "w_munlock a lk s = Some s'" by simp
    note f = w_munlock_eff [OF e]
    from n f(1) show ?thesis by (simp add: inv_node_def Let_def f(3,5,7))
  next
    case (W_wake b e0)
    with st ac have e: "w_wake a e0 s = Some s'" by simp
    note f = w_wake_eff [OF e]
    from n f(1) show ?thesis by (simp add: inv_node_def Let_def f(3,5,7))
  next
    case (W_cas b)
    with st ac have e: "w_cas a s = Some s'" by simp
    note f = w_cas_eff [OF e]
    from n f(1) show ?thesis by (auto simp: inv_node_def Let_def f(4,6,7,8))
  next
    case (W_remove b)
    with st ac have e: "w_remove a s = Some s'" by simp
    note f = w_remove_eff [OF e]
    from inv_distinct [OF i] have "a \<notin> set (remove1 a (attached s))" by simp
    with n f(1) show ?thesis
      by (simp add: inv_node_def Let_def f(5,6,8,9) remove_node_fields [OF surjective_pairing])
  next
    case (W_notify b)
    with st ac have e: "w_notify a s = Some s'" by simp
    note f = w_notify_eff [OF e]
    from n f(1) show ?thesis by (simp add: inv_node_def Let_def f(3,4,6,7))
  next
    case (W_barrier b v)
    with st ac have e: "w_barrier a v s = Some s'" by simp
    note f = w_barrier_eff [OF e]
    from n f(1) show ?thesis by (simp add: inv_node_def Let_def f(4,6,7,8))
  next
    case (W_mlock b tmp lk)
    with st ac have e: "w_mlock a tmp lk s = Some s'" by simp
    note f = w_mlock_eff [OF e]
    from n f(1) show ?thesis by (auto simp: inv_node_def Let_def f(3,5,7,8))
  next
    case (W_inc b)
    with st ac have e: "w_inc a s = Some s'" by simp
    note f = w_inc_eff [OF e]
    from n f(1) show ?thesis by (simp add: inv_node_def Let_def f(3,5,7,8))
  next
    case (W_next b)
    with st ac have e: "w_next a s = Some s'" by simp
    note f = w_next_eff [OF e]
    from n f(1) show ?thesis by (simp add: inv_node_def Let_def f(4,6,7,10))
  next
    case (W_done b pend)
    with st ac have e: "w_done a pend s = Some s'" by simp
    note f = w_done_eff [OF e]
    from n f(1) f(7) show ?thesis by (auto simp: inv_node_def Let_def f(3,5,8))
  qed (use ac in simp_all)
qed

lemma inv_node_step:
  assumes "sys_inv s" "step act s = Some s'"
  shows "inv_node s' a"
  using inv_node_own [OF assms] inv_node_other [OF assms] by blast

lemma pc_fresh_mono:
  assumes st: "step act s = Some s'"
    and pc: "w_pc (wthr s' b) = W69 \<or> w_pc (wthr s' b) = W77"
  shows "w_pc (wthr s b) = W69 \<or> w_pc (wthr s b) = W77"
proof (cases "wactor act = Some b")
  case False
  from wthr_other [OF st False] pc show ?thesis by simp
next
  case True
  show ?thesis
  proof (cases act)
    case (W_enter a tid ts cst pend)
    with st True w_enter_eff(1) [of b tid ts cst pend s s'] show ?thesis by simp
  next
    case (W_enqueue a)
    with st True have e: "w_enqueue b s = Some s'" by simp
    from e pc show ?thesis
      by (auto simp: w_enqueue_def upd_defs split: if_split_asm option.splits)
  next
    case (W_munlock a lk)
    with st True pc w_munlock_eff(7) [of b lk s s'] show ?thesis by simp
  next
    case (W_wake a e)
    with st True pc w_wake_eff(7) [of b e s s'] show ?thesis by simp
  next
    case (W_cas a)
    with st True pc w_cas_eff(6) [of b s s'] show ?thesis by (simp split: if_split_asm)
  next
    case (W_remove a)
    with st True pc w_remove_eff(5) [of b s s'] show ?thesis by simp
  next
    case (W_notify a)
    with st True pc w_notify_eff(6) [of b s s'] show ?thesis by simp
  next
    case (W_barrier a v)
    with st True pc w_barrier_eff(6) [of b v s s'] show ?thesis by simp
  next
    case (W_mlock a tmp lk)
    with st True pc w_mlock_eff(7) [of b tmp lk s s'] show ?thesis by (simp split: if_split_asm)
  next
    case (W_inc a)
    with st True pc w_inc_eff(7) [of b s s'] show ?thesis by simp
  next
    case (W_next a)
    with st True pc w_next_eff(6) [of b s s'] show ?thesis by simp
  next
    case (W_done a pend)
    with st True pc w_done_eff(7) [of b pend s s'] show ?thesis by auto
  qed (use True in simp_all)
qed

lemma wf_queue_ptrs:
  assumes "wf_queue c h xs" "a \<in> set xs"
  shows "prev (h a) = Some b \<Longrightarrow> b \<in> set xs" "next_w (h a) = Some b \<Longrightarrow> b \<in> set xs"
proof -
  from assms have "dll h None xs None" by (simp add: wf_queue_def)
  from dll_ptrs [OF this assms(2)]
  show "prev (h a) = Some b \<Longrightarrow> b \<in> set xs" "next_w (h a) = Some b \<Longrightarrow> b \<in> set xs"
    by auto
qed

lemma inv_ptr_step:
  assumes i: "sys_inv s" and st: "step act s = Some s'"
  shows "inv_ptr s'"
proof -
  have old: "w_pc (wthr s' b) \<noteq> W69 \<and> w_pc (wthr s' b) \<noteq> W77"
    if "prev (nodes s a) = Some b \<or> next_w (nodes s a) = Some b" for a b
    using that inv_ptrD [OF i, of a b] pc_fresh_mono [OF st, of b] by blast
  have "w_pc (wthr s' b) \<noteq> W69 \<and> w_pc (wthr s' b) \<noteq> W77"
    if p: "prev (nodes s' a) = Some b \<or> next_w (nodes s' a) = Some b" for a b
  proof -
    consider (enq) z where "act = W_enqueue z" | (rem) z where "act = W_remove z"
      | (spl) r where "act = S_split r"
      | (other) "\<And>a. act \<noteq> W_enqueue a" "\<And>a. act \<noteq> W_remove a" "\<And>r. act \<noteq> S_split r"
      by blast
    then show ?thesis
    proof cases
      case other
      from p step_list_frame(4,5) [OF st other] old [of a b] show ?thesis by simp
    next
      case rem
      with st have h': "nodes s' = snd (remove_node z (cv s, nodes s))"
        using w_remove_eff(8) [of z s s'] by simp
      from p remove_node_ptrs [of z "cv s" "nodes s" a] h'
      have "prev (nodes s a) = Some b \<or> next_w (nodes s a) = Some b
          \<or> prev (nodes s z) = Some b \<or> next_w (nodes s z) = Some b"
        by auto
      with old [of a b] old [of z b] show ?thesis by blast
    next
      case spl
      with st have h': "nodes s' = snd (split_list (s_p (s_walk (sthr s r))) (cv s, nodes s))"
        using s_split_eff(7) [of r s s'] by simp
      from p split_list_ptrs [of "s_p (s_walk (sthr s r))" "cv s" "nodes s" a] h'
      have "prev (nodes s a) = Some b \<or> next_w (nodes s a) = Some b" by auto
      with old [of a b] show ?thesis by blast
    next
      case enq
      with st have e: "w_enqueue z s = Some s'" by simp
      note f = w_enqueue_eff [OF e]
      from enqueue_ok [OF i f(1)] obtain c' h' where
        ch: "enqueue_node z (cv s, nodes s) = Some (c', h')" by blast
      note g = f(7) [OF ch]
      from p enqueue_node_ptrs [OF ch, of a] g
      consider "prev (nodes s a) = Some b \<or> next_w (nodes s a) = Some b" | "b = z"
        | "c_head (cv s) = Some b" by auto
      then show ?thesis
      proof cases
        case 1 with old [of a b] show ?thesis by blast
      next
        case 2 with g show ?thesis by simp
      next
        case 3
        from wf_queue_ends(1) [OF inv_wf [OF i] 3] have "b \<in> set (attached s)" .
        from attached_pc [OF i this] pc_fresh_mono [OF st, of b] show ?thesis by blast
      qed
    qed
  qed
  then show ?thesis unfolding inv_ptr_def by blast
qed

lemma inv_sepD:
  assumes "sys_inv s" "w_pc (wthr s a) = W127" "a \<notin> set (attached s)"
  shows "prev (nodes s a) = Some b \<Longrightarrow> b \<notin> set (attached s)"
    and "next_w (nodes s a) = Some b \<Longrightarrow> b \<notin> set (attached s)"
  using invD(7) [OF assms(1)] assms(2,3) unfolding inv_sep_def by blast+

lemma pc127_from:
  assumes st: "step act s = Some s'" and pc: "w_pc (wthr s' a) = W127"
  shows "w_pc (wthr s a) = W127 \<or> (act = W_cas a \<and> state (nodes s a) = WAITING)"
proof (cases "wactor act = Some a")
  case False
  from wthr_other [OF st False] pc show ?thesis by simp
next
  case True
  show ?thesis
  proof (cases act)
    case (W_enter b tid ts cst pend)
    with st True pc w_enter_eff(7) [of a tid ts cst pend s s'] show ?thesis by auto
  next
    case (W_enqueue b)
    with st True have e: "w_enqueue a s = Some s'" by simp
    from e pc show ?thesis
      by (auto simp: w_enqueue_def upd_defs split: if_split_asm option.splits)
  next
    case (W_munlock b lk)
    with st True pc w_munlock_eff(7) [of a lk s s'] show ?thesis by simp
  next
    case (W_wake b e)
    with st True pc w_wake_eff(7) [of a e s s'] show ?thesis by simp
  next
    case (W_cas b)
    with st True pc w_cas_eff(6) [of a s s'] show ?thesis by (auto split: if_split_asm)
  next
    case (W_remove b)
    with st True pc w_remove_eff(5) [of a s s'] show ?thesis by simp
  next
    case (W_notify b)
    with st True pc w_notify_eff(6) [of a s s'] show ?thesis by simp
  next
    case (W_barrier b v)
    with st True pc w_barrier_eff(6) [of a v s s'] show ?thesis by simp
  next
    case (W_mlock b tmp lk)
    with st True pc w_mlock_eff(7) [of a tmp lk s s'] show ?thesis by (simp split: if_split_asm)
  next
    case (W_inc b)
    with st True pc w_inc_eff(7) [of a s s'] show ?thesis by simp
  next
    case (W_next b)
    with st True pc w_next_eff(6) [of a s s'] show ?thesis by simp
  next
    case (W_done b pend)
    with st True pc w_done_eff(7) [of a pend s s'] show ?thesis by auto
  qed (use True in simp_all)
qed

lemma inv_sep_step:
  assumes i: "sys_inv s" and st: "step act s = Some s'"
  shows "inv_sep s'"
proof -
  note wf = inv_wf [OF i]
  have "b \<notin> set (attached s')"
    if pc: "w_pc (wthr s' a) = W127" and na: "a \<notin> set (attached s')"
      and p: "prev (nodes s' a) = Some b \<or> next_w (nodes s' a) = Some b" for a b
  proof -
    consider (cas) "act = W_cas a" "state (nodes s a) = WAITING" | (old) "w_pc (wthr s a) = W127"
      using pc127_from [OF st pc] by blast
    then show ?thesis
    proof cases
      case cas
      with st have e: "w_cas a s = Some s'" by simp
      note f = w_cas_eff [OF e]
      from invD(5) [OF i, of a] f(1) cas(2) have "a \<in> set (attached s)"
        by (simp add: inv_node_def Let_def)
      with na f(4) show ?thesis by simp
    next
      case old
      consider (enq) z where "act = W_enqueue z" | (rem) z where "act = W_remove z"
        | (spl) r where "act = S_split r"
        | (other) "\<And>a. act \<noteq> W_enqueue a" "\<And>a. act \<noteq> W_remove a" "\<And>r. act \<noteq> S_split r"
        by blast
      then show ?thesis
      proof cases
        case other
        note fr = step_list_frame [OF st other]
        from na fr(1) have "a \<notin> set (attached s)" by simp
        from inv_sepD [OF i old this, of b] p fr show ?thesis by auto
      next
        case enq
        with st have e: "w_enqueue z s = Some s'" by simp
        note f = w_enqueue_eff [OF e]
        from enqueue_ok [OF i f(1)] obtain c' h' where
          ch: "enqueue_node z (cv s, nodes s) = Some (c', h')" by blast
        note g = f(7) [OF ch]
        from na g have az: "a \<noteq> z" and naa: "a \<notin> set (attached s)" by auto
        from wf_queue_ends(1) [OF wf] naa have "c_head (cv s) \<noteq> Some a" by blast
        from enqueue_node_frame [OF ch az this] g have "nodes s' a = nodes s a" by simp
        with p have p': "prev (nodes s a) = Some b \<or> next_w (nodes s a) = Some b" by simp
        with inv_sepD [OF i old naa, of b] have "b \<notin> set (attached s)" by blast
        moreover from p' inv_ptrD [OF i, of a b] f(1) have "b \<noteq> z" by auto
        ultimately show ?thesis using g by simp
      next
        case rem
        with st have e: "w_remove z s = Some s'" by simp
        note f = w_remove_eff [OF e]
        have az: "a \<noteq> z" using pc f(5) by auto
        with na f(9) have naa: "a \<notin> set (attached s)" by (simp add: in_set_remove1)
        have sub: "b \<notin> set (attached s) \<Longrightarrow> b \<notin> set (attached s')"
          using f(9) set_remove1_subset [of z "attached s"] by auto
        show ?thesis
        proof (cases "z \<in> set (attached s)")
          case True
          from wf_queue_ptrs [OF wf True, of a] naa
          have "prev (nodes s z) \<noteq> Some a" "next_w (nodes s z) \<noteq> Some a" by blast+
          from remove_node_frame [where h = "nodes s" and a = z and x = a and c = "cv s", OF this] f(8) have "nodes s' a = nodes s a" by simp
          with p inv_sepD [OF i old naa, of b] sub show ?thesis by auto
        next
          case False
          from p remove_node_ptrs [of z "cv s" "nodes s" a] f(8)
          have "prev (nodes s a) = Some b \<or> next_w (nodes s a) = Some b
            \<or> prev (nodes s z) = Some b \<or> next_w (nodes s z) = Some b" by auto
          with inv_sepD [OF i old naa, of b] inv_sepD [OF i f(1) False, of b] sub
          show ?thesis by blast
        qed
      next
        case spl
        with st have e: "s_split r s = Some s'" by simp
        note f = s_split_eff [OF e]
        let ?seen = "s_seen (s_walk (sthr s r))" and ?p = "s_p (s_walk (sthr s r))"
        from inv_walkD(1) [OF i f(1)] obtain pre where pre: "attached s = pre @ ?seen"
          and pp: "?p = (if pre = [] then None else Some (last pre))" by blast
        from inv_distinct [OF i] pre have dist: "distinct (pre @ ?seen)" by simp
        with pre f(8) have att': "attached s' = pre"
          using filter_not_seen [of pre ?seen] by simp
        from wf pre have wf': "wf_queue (cv s) (nodes s) (pre @ ?seen)" by simp
        show ?thesis
        proof (cases "a \<in> set ?seen")
          case True
          from dll_ptrs [OF split_list_wf(2) [OF wf' pp] True] p f(7)
          have "b \<in> set ?seen" by auto
          with dist att' show ?thesis by auto
        next
          case False
          with na att' pre have naa: "a \<notin> set (attached s)" by simp
          have 1: "?p \<noteq> Some a" using pp naa pre by (auto split: if_split_asm)
          have 2: "next_w (nodes s y) \<noteq> Some a" if "?p = Some y" for y
          proof -
            from that pp pre have "y \<in> set (attached s)" by (auto split: if_split_asm)
            from wf_queue_ptrs(2) [OF wf this, of a] naa show ?thesis by blast
          qed
          from split_list_frame [where h = "nodes s" and p = ?p and x = a and c = "cv s", OF 1 2] f(7) have "nodes s' a = nodes s a" by simp
          with p inv_sepD [OF i old naa, of b] have "b \<notin> set (attached s)" by auto
          with att' pre show ?thesis by simp
        qed
      qed
    qed
  qed
  then show ?thesis unfolding inv_sep_def by blast
qed

text \<open>The program points of a waiter before and after a step of its own.\<close>

lemma own_pc:
  assumes st: "step act s = Some s'" and ac: "wactor act = Some a"
  shows "((\<exists>tid ts cst pend. act = W_enter a tid ts cst pend) \<and> w_pc (wthr s a) = W69
            \<and> (w_pc (wthr s' a) = W77 \<or> w_pc (wthr s' a) = W_cancelled
                \<or> (\<exists>v. w_pc (wthr s' a) = W_ret v)))
    \<or> (act = W_enqueue a \<and> w_pc (wthr s a) = W77
            \<and> (w_pc (wthr s' a) = W93 \<or> w_pc (wthr s' a) = W_fault))
    \<or> ((\<exists>lk. act = W_munlock a lk) \<and> w_pc (wthr s a) = W93 \<and> w_pc (wthr s' a) = W107)
    \<or> ((\<exists>e. act = W_wake a e) \<and> w_pc (wthr s a) = W107 \<and> w_pc (wthr s' a) = W111)
    \<or> (act = W_cas a \<and> w_pc (wthr s a) = W111
            \<and> w_pc (wthr s' a) = (if state (nodes s a) = WAITING then W127 else W162))
    \<or> (act = W_remove a \<and> w_pc (wthr s a) = W127 \<and> w_pc (wthr s' a) = W150)
    \<or> (act = W_notify a \<and> w_pc (wthr s a) = W150 \<and> w_pc (wthr s' a) = W168)
    \<or> ((\<exists>v. act = W_barrier a v) \<and> w_pc (wthr s a) = W162 \<and> w_pc (wthr s' a) = W168)
    \<or> ((\<exists>tmp lk. act = W_mlock a tmp lk) \<and> w_pc (wthr s a) = W168
            \<and> (w_pc (wthr s' a) = W200 \<or> w_pc (wthr s' a) = W186))
    \<or> (act = W_inc a \<and> w_pc (wthr s a) = W186 \<and> w_pc (wthr s' a) = W191)
    \<or> (act = W_next a \<and> w_pc (wthr s a) = W191 \<and> w_pc (wthr s' a) = W200)
    \<or> ((\<exists>pend. act = W_done a pend) \<and> w_pc (wthr s a) = W200
            \<and> (w_pc (wthr s' a) = W_cancelled \<or> (\<exists>v. w_pc (wthr s' a) = W_ret v)))"
proof (cases act)
  case (W_enter b tid ts cst pend)
  with st ac w_enter_eff(1,7) [of a tid ts cst pend s s'] show ?thesis by simp
next
  case (W_enqueue b)
  with st ac have e: "w_enqueue a s = Some s'" by simp
  from e have "w_pc (wthr s a) = W77 \<and> (w_pc (wthr s' a) = W93 \<or> w_pc (wthr s' a) = W_fault)"
    by (auto simp: w_enqueue_def upd_defs split: if_split_asm option.splits)
  with W_enqueue ac show ?thesis by simp
next
  case (W_munlock b lk)
  with st ac w_munlock_eff(1,7) [of a lk s s'] show ?thesis by simp
next
  case (W_wake b e)
  with st ac w_wake_eff(1,7) [of a e s s'] show ?thesis by simp
next
  case (W_cas b)
  with st ac w_cas_eff(1,6) [of a s s'] show ?thesis by simp
next
  case (W_remove b)
  with st ac w_remove_eff(1,5) [of a s s'] show ?thesis by simp
next
  case (W_notify b)
  with st ac w_notify_eff(1,6) [of a s s'] show ?thesis by simp
next
  case (W_barrier b v)
  with st ac w_barrier_eff(1,6) [of a v s s'] show ?thesis by simp
next
  case (W_mlock b tmp lk)
  with st ac w_mlock_eff(1,7) [of a tmp lk s s'] show ?thesis by simp
next
  case (W_inc b)
  with st ac w_inc_eff(1,7) [of a s s'] show ?thesis by simp
next
  case (W_next b)
  with st ac w_next_eff(1,6) [of a s s'] show ?thesis by simp
next
  case (W_done b pend)
  with st ac w_done_eff(1,7) [of a pend s s'] show ?thesis by simp
qed (use ac in simp_all)

lemma pend_pc:
  assumes st: "step act s = Some s'" and ne: "act \<noteq> W_cas a" "act \<noteq> W_notify a"
  shows "(w_pc (wthr s' a) = W127 \<or> w_pc (wthr s' a) = W150)
     \<longleftrightarrow> (w_pc (wthr s a) = W127 \<or> w_pc (wthr s a) = W150)"
proof (cases "wactor act = Some a")
  case False
  from wthr_other [OF st False] show ?thesis by simp
next
  case True
  from own_pc [OF st True] ne show ?thesis by auto
qed

lemma sref_frame:
  assumes st: "step act s = Some s'"
    and ne: "\<And>a. act \<noteq> W_notify a" "\<And>n. act \<noteq> S_lock r n" "act \<noteq> S_iter r"
  shows "s_ref (s_walk (sthr s' r)) = s_ref (s_walk (sthr s r))"
proof (cases act)
  case (S_lock q n)
  with ne(2) [of n] have "r \<noteq> q" by auto
  with S_lock st s_lock_eff(7) [of q n s s' r] show ?thesis by simp
next
  case (S_iter q)
  with ne(3) have "r \<noteq> q" by auto
  with S_iter st s_iter_eff(5) [of q s s' r] show ?thesis by simp
next
  case (S_split q)
  with st s_split_eff(3,5) [of q s s'] show ?thesis by (cases "q = r") simp_all
next
  case (S_wait q)
  with st s_wait_eff(6,7) [of q s s'] show ?thesis by (cases "q = r") simp_all
next
  case (S_unlock q)
  with st s_unlock_eff(5,6) [of q s s'] show ?thesis by (cases "q = r") simp_all
next
  case (W_enter a tid ts cst pend)
  with st w_enter_eff(4) [of a tid ts cst pend s s'] show ?thesis by simp
next
  case (W_enqueue a)
  with st w_enqueue_eff(3) [of a s s'] show ?thesis by simp
next
  case (W_munlock a lk)
  with st w_munlock_eff(4) [of a lk s s'] show ?thesis by simp
next
  case (W_wake a e)
  with st w_wake_eff(4) [of a e s s'] show ?thesis by simp
next
  case (W_cas a)
  with st w_cas_eff(3) [of a s s'] show ?thesis by simp
next
  case (W_remove a)
  with st w_remove_eff(3) [of a s s'] show ?thesis by simp
next
  case (W_barrier a v)
  with st w_barrier_eff(3) [of a v s s'] show ?thesis by simp
next
  case (W_mlock a tmp lk)
  with st w_mlock_eff(4) [of a tmp lk s s'] show ?thesis by simp
next
  case (W_inc a)
  with st w_inc_eff(4) [of a s s'] show ?thesis by simp
next
  case (W_next a)
  with st w_next_eff(3) [of a s s'] show ?thesis by simp
next
  case (W_done a pend)
  with st w_done_eff(4) [of a pend s s'] show ?thesis by simp
qed (use ne in simp)

lemma pending_finite:
  assumes "sys_inv s"
  shows "finite (pending s r)"
proof (rule finite_subset)
  show "pending s r \<subseteq> set (s_seen (s_walk (sthr s r)))"
    using inv_seenD(2) [OF assms] by (auto simp: pending_def)
qed simp

lemma inv_refD:
  assumes "sys_inv s"
  shows "s_pc (sthr s r) = S221 \<or> s_pc (sthr s r) = S250 \<Longrightarrow>
           s_ref (s_walk (sthr s r)) = int (card (pending s r))"
    and "s_pc (sthr s r) = S254 \<or> s_pc (sthr s r) = S_ret \<Longrightarrow> pending s r = {}"
  using invD(8) [OF assms] unfolding inv_ref_def by blast+

lemma spc_other:
  assumes st: "step act s = Some s'" and na: "sactor act \<noteq> Some r"
  shows "s_pc (sthr s' r) = s_pc (sthr s r)"
  using sthr_other(1) [OF st na] .

lemma pending_same:
  assumes st: "step act s = Some s'"
    and ne: "\<And>a. act \<noteq> W_cas a" "\<And>a. act \<noteq> W_notify a" "\<And>q. act \<noteq> S_iter q"
  shows "pending s' r = pending s r"
  unfolding pending_def
  using step_notify_frame [OF st ne(3)] pend_pc [OF st ne(1,2)] by simp

lemma inv_ref_step:
  assumes i: "sys_inv s" and st: "step act s = Some s'"
  shows "inv_ref s'"
proof -
  have "(s_pc (sthr s' r) = S221 \<or> s_pc (sthr s' r) = S250 \<longrightarrow>
              s_ref (s_walk (sthr s' r)) = int (card (pending s' r)))
         \<and> (s_pc (sthr s' r) = S254 \<or> s_pc (sthr s' r) = S_ret \<longrightarrow> pending s' r = {})" for r
  proof -
    note ir = inv_refD [OF i, of r]
    note fin = pending_finite [OF i, of r]
    consider (cas) a where "act = W_cas a" | (notify) a where "act = W_notify a"
      | (iter) q where "act = S_iter q" | (lock) q n where "act = S_lock q n"
      | (split) q where "act = S_split q" | (wait) q where "act = S_wait q"
      | (unlock) q where "act = S_unlock q"
      | (other) "\<And>a. act \<noteq> W_cas a" "\<And>a. act \<noteq> W_notify a" "\<And>q. act \<noteq> S_iter q"
          "sactor act = None"
      by (cases act) auto
    then show ?thesis
    proof cases
      case other
      from other(4) have "sactor act \<noteq> Some r" by simp
      note pc = spc_other [OF st this]
      have rf: "s_ref (s_walk (sthr s' r)) = s_ref (s_walk (sthr s r))"
        using other by (intro sref_frame [OF st]) auto
      from ir show ?thesis by (simp add: pc rf pending_same [OF st other(1-3)])
    next
      case cas
      from st cas have e: "w_cas a s = Some s'" by simp
      note f = w_cas_eff [OF e]
      have nn: "notify (nodes s a) \<noteq> Some r" if "state (nodes s a) = WAITING"
        using inv_seenD(2) [OF i, of a r] that by auto
      have "y \<in> pending s' r \<longleftrightarrow> y \<in> pending s r" for y
      proof (cases "y = a")
        case True
        with f(1,6) nn show ?thesis by (auto simp: pending_def f(8) split: if_split_asm)
      next
        case False
        with f(5) [of y] show ?thesis by (simp add: pending_def f(8))
      qed
      then have "pending s' r = pending s r" by blast
      with ir show ?thesis by (simp add: f(3))
    next
      case notify
      from st notify have e: "w_notify a s = Some s'" by simp
      note f = w_notify_eff [OF e]
      have "y \<in> pending s' r \<longleftrightarrow> y \<in> pending s r - {a}" for y
      proof (cases "y = a")
        case True
        with f(6) show ?thesis by (simp add: pending_def)
      next
        case False
        with f(5) [of y] show ?thesis by (simp add: pending_def f(3))
      qed
      then have pend: "pending s' r = pending s r - {a}" by blast
      show ?thesis
      proof (cases "notify (nodes s a) = Some r")
        case True
        with f(1) have ain: "a \<in> pending s r" by (simp add: pending_def)
        with fin have "card (pending s r - {a}) = card (pending s r) - 1" "0 < card (pending s r)"
          by (simp_all add: card_gt_0_iff) blast
        with ir ain True show ?thesis by (auto simp: f(8,11) pend)
      next
        case False
        then have "a \<notin> pending s r" by (simp add: pending_def)
        with ir False show ?thesis by (simp add: f(8,11) pend)
      qed
    next
      case lock
      from st lock have e: "s_lock q n s = Some s'" by simp
      note f = s_lock_eff [OF e]
      have ps: "pending s' r = pending s r" by (simp add: pending_def f(4,5))
      show ?thesis
      proof (cases "q = r")
        case True
        from inv_walkD(3) [OF i f(1)] inv_seenD(2) [OF i, of _ q] have "pending s q = {}"
          by (auto simp: pending_def)
        with True f(8) show ?thesis by (simp add: ps)
      next
        case False
        with f(7) [of r] ir show ?thesis by (simp add: ps)
      qed
    next
      case split
      from st split have e: "s_split q s = Some s'" by simp
      note f = s_split_eff [OF e]
      have ps: "pending s' r = pending s r"
        by (simp add: pending_def f(2,7) split_list_fields)
      show ?thesis
      proof (cases "q = r")
        case True
        with f(1,4,5) ir show ?thesis by (simp add: ps)
      next
        case False
        with f(3) [of r] ir show ?thesis by (simp add: ps)
      qed
    next
      case wait
      from st wait have e: "s_wait q s = Some s'" by simp
      note f = s_wait_eff [OF e]
      have ps: "pending s' r = pending s r" by (simp add: pending_def f(3,4))
      show ?thesis
      proof (cases "q = r")
        case True
        with f(1,7,8) ir fin show ?thesis by (auto simp: ps)
      next
        case False
        with f(6) [of r] ir show ?thesis by (simp add: ps)
      qed
    next
      case unlock
      from st unlock have e: "s_unlock q s = Some s'" by simp
      note f = s_unlock_eff [OF e]
      have ps: "pending s' r = pending s r" by (simp add: pending_def f(3,11))
      show ?thesis
      proof (cases "q = r")
        case True
        with f(1,6,7) ir show ?thesis by (simp add: ps)
      next
        case False
        with f(5) [of r] ir show ?thesis by (simp add: ps)
      qed
    next
      case iter
      from st iter have e: "s_iter q s = Some s'" by simp
      note f = s_iter_eff [OF e]
      from f(7) obtain x where x: "s_p (s_walk (sthr s q)) = Some x"
        and h': "nodes s' = fst (walk_iter q x (nodes s, s_walk (sthr s q)))"
        and w': "s_walk (sthr s' q) = snd (walk_iter q x (nodes s, s_walk (sthr s q)))"
        by blast
      note nx = walk_next [OF i f(1) x]
      have nt: "notify (nodes s' y) = (if y = x \<and> state (nodes s x) \<noteq> WAITING then Some q
          else notify (nodes s y))" for y
        by (simp add: h' walk_iter_fields)
      show ?thesis
      proof (cases "q = r \<and> state (nodes s x) \<noteq> WAITING")
        case False
        have ps: "pending s' r = pending s r"
          using False nx(5) by (auto simp: pending_def nt f(3))
        show ?thesis
        proof (cases "q = r")
          case True
          with False have "state (nodes s x) = WAITING" by simp
          with True w' f(1,6) ir show ?thesis by (simp add: ps walk_iter_n)
        next
          case qr: False
          with f(5) [of r] ir show ?thesis by (simp add: ps)
        qed
      next
        case True
        then have qr: "q = r" and nw: "state (nodes s x) \<noteq> WAITING" by simp_all
        with nx(3) have lv: "state (nodes s x) = LEAVING" by (cases "state (nodes s x)") simp_all
        from invD(5) [OF i, of x] lv nx(1) have pcx: "w_pc (wthr s x) = W127"
          unfolding inv_node_def Let_def by (cases "w_pc (wthr s x)") simp_all
        have ps: "pending s' r = insert x (pending s r)"
          using qr nw pcx nx(5) by (auto simp: pending_def nt f(3))
        from nx(5) have "x \<notin> pending s r" by (simp add: pending_def)
        with fin have "card (insert x (pending s r)) = card (pending s r) + 1" by simp
        with qr nw w' f(1,6) ir show ?thesis by (simp add: ps walk_iter_n)
      qed
    qed
  qed
  then show ?thesis unfolding inv_ref_def by blast
qed

lemma sys_inv_step:
  assumes "sys_inv s" "step act s = Some s'"
  shows "sys_inv s'"
  unfolding sys_inv_def
  using inv_list_step [OF assms] inv_lock_step [OF assms] inv_walk_step [OF assms]
    inv_seen_step [OF assms] inv_node_step [OF assms] inv_ptr_step [OF assms]
    inv_sep_step [OF assms] inv_ref_step [OF assms]
  by blast

lemma sys_inv_run_from:
  "sys_inv s \<Longrightarrow> run sched s = Some s' \<Longrightarrow> sys_inv s'"
proof (induction sched arbitrary: s)
  case Nil
  then show ?case by simp
next
  case (Cons act sched)
  from Cons.prems(2) obtain s1 where s1: "step act s = Some s1" and r: "run sched s1 = Some s'"
    by (auto split: option.splits)
  from Cons.IH [OF sys_inv_step [OF Cons.prems(1) s1] r] show ?case .
qed

lemma sys_inv_run: "run sched (init m clk) = Some s \<Longrightarrow> sys_inv s"
  using sys_inv_run_from [OF inv_init] .

lemmas sched2_defs = sched_race_def sched_both_def st_both_def

text \<open>
  C4. In every state that an interleaving of calls reaches from the initial state: the
  list of the condition variable is well formed and holds exactly the attached nodes
  (those added at lines 79-89 and taken off neither by their waiter at lines 130-137
  nor by a split), so the head is null exactly when no node is attached, and so is the
  tail; no call has dereferenced a null pointer; an attached node belongs to a call
  that has added it and not yet removed it, and the node of a waiter that is still
  \<open>WAITING\<close> is attached. Adding a node puts it at the head; the removal by a
  timed-out waiter takes its node off, whether a signaller has split it off before or
  not, and leaves the list well formed; a split takes off exactly the nodes that the
  loop has visited, which are the tail end of the list from the node after \<open>p\<close> on,
  and leaves the head and the tail on the rest, while the visited nodes form a list
  of their own.
\<close>

theorem waiter_list_consistent:
  assumes "run sched (init m clk) = Some s"
  shows "wf_queue (cv s) (nodes s) (attached s)
    \<and> (c_head (cv s) = None \<longleftrightarrow> attached s = [])
    \<and> (c_tail (cv s) = None \<longleftrightarrow> attached s = [])
    \<and> (\<forall>a. w_pc (wthr s a) \<noteq> W_fault)
    \<and> (\<forall>a. a \<in> set (attached s) \<longrightarrow>
          w_pc (wthr s a) \<noteq> W69 \<and> w_pc (wthr s a) \<noteq> W77 \<and> w_pc (wthr s a) \<noteq> W150)
    \<and> (\<forall>a. state (nodes s a) = WAITING
            \<and> (w_pc (wthr s a) = W93 \<or> w_pc (wthr s a) = W107 \<or> w_pc (wthr s a) = W111) \<longrightarrow>
          a \<in> set (attached s))
    \<and> (\<forall>a s'. w_enqueue a s = Some s' \<longrightarrow>
          attached s' = a # attached s \<and> wf_queue (cv s') (nodes s') (a # attached s))
    \<and> (\<forall>a s'. w_remove a s = Some s' \<longrightarrow>
          attached s' = remove1 a (attached s)
          \<and> wf_queue (cv s') (nodes s') (remove1 a (attached s)))
    \<and> (\<forall>r s'. s_split r s = Some s' \<longrightarrow>
          (\<exists>pre. attached s = pre @ s_seen (s_walk (sthr s r))
             \<and> s_p (s_walk (sthr s r)) = (if pre = [] then None else Some (last pre))
             \<and> attached s' = pre \<and> wf_queue (cv s') (nodes s') pre
             \<and> dll (nodes s') None (s_seen (s_walk (sthr s r))) None))"
proof -
  note i = sys_inv_run [OF assms]
  note wf = inv_wf [OF i]
  have hd: "c_head (cv s) = None \<longleftrightarrow> attached s = []"
    and tl: "c_tail (cv s) = None \<longleftrightarrow> attached s = []"
    using wf by (simp_all add: wf_queue_def)
  have nf: "w_pc (wthr s a) \<noteq> W_fault" for a by (rule inv_nodeD(5) [OF i])
  have att: "w_pc (wthr s a) \<noteq> W69 \<and> w_pc (wthr s a) \<noteq> W77 \<and> w_pc (wthr s a) \<noteq> W150"
    if "a \<in> set (attached s)" for a
    using attached_pc [OF i that] inv_nodeD(4) [OF i, of a] that by blast
  have wt: "a \<in> set (attached s)"
    if "state (nodes s a) = WAITING
        \<and> (w_pc (wthr s a) = W93 \<or> w_pc (wthr s a) = W107 \<or> w_pc (wthr s a) = W111)" for a
    using invD(5) [OF i, of a] that by (auto simp: inv_node_def Let_def)
  have enq: "attached s' = a # attached s \<and> wf_queue (cv s') (nodes s') (a # attached s)"
    if e: "w_enqueue a s = Some s'" for a s'
  proof -
    note f = w_enqueue_eff [OF e]
    from enqueue_ok [OF i f(1)] obtain c' h' where
      ch: "enqueue_node a (cv s, nodes s) = Some (c', h')" and w: "wf_queue c' h' (a # attached s)"
      by blast
    from f(7) [OF ch] w show ?thesis by simp
  qed
  have rem: "attached s' = remove1 a (attached s)
      \<and> wf_queue (cv s') (nodes s') (remove1 a (attached s))"
    if e: "w_remove a s = Some s'" for a s'
  proof -
    from e have st: "step (W_remove a) s = Some s'" by simp
    from inv_wf [OF sys_inv_step [OF i st]] w_remove_eff(9) [OF e] show ?thesis by simp
  qed
  have spl: "\<exists>pre. attached s = pre @ s_seen (s_walk (sthr s r))
             \<and> s_p (s_walk (sthr s r)) = (if pre = [] then None else Some (last pre))
             \<and> attached s' = pre \<and> wf_queue (cv s') (nodes s') pre
             \<and> dll (nodes s') None (s_seen (s_walk (sthr s r))) None"
    if e: "s_split r s = Some s'" for r s'
  proof -
    note f = s_split_eff [OF e]
    from e have st: "step (S_split r) s = Some s'" by simp
    from inv_walkD(1) [OF i f(1)] obtain pre where
      pre: "attached s = pre @ s_seen (s_walk (sthr s r))"
      and p: "s_p (s_walk (sthr s r)) = (if pre = [] then None else Some (last pre))" by blast
    from inv_distinct [OF i] pre f(8) have a': "attached s' = pre"
      using filter_not_seen [of pre "s_seen (s_walk (sthr s r))"] by simp
    from wf pre have "wf_queue (cv s) (nodes s) (pre @ s_seen (s_walk (sthr s r)))" by simp
    from split_list_wf(2) [OF this p] f(7)
    have "dll (nodes s') None (s_seen (s_walk (sthr s r))) None" by simp
    with pre p a' inv_wf [OF sys_inv_step [OF i st]] show ?thesis by auto
  qed
  from wf hd tl nf att wt enq rem spl show ?thesis by blast
qed

theorem waiter_list_consistent_witness:
  "map_option (\<lambda>s. (attached s, c_head (cv s), c_tail (cv s), w_pc (wthr s 1), w_pc (wthr s 2)))
     (run sched_race (init m_normal 0)) = Some ([2], Some 2, Some 2, W168, W93)
   \<and> wf_queue (cv (the (run sched_race (init m_normal 0))))
        (nodes (the (run sched_race (init m_normal 0))))
        (attached (the (run sched_race (init m_normal 0))))"
proof -
  define s where "s = the (run sched_race (init m_normal 0))"
  have r: "run sched_race (init m_normal 0) = Some s"
    and v: "map_option (\<lambda>s. (attached s, c_head (cv s), c_tail (cv s), w_pc (wthr s 1),
        w_pc (wthr s 2))) (run sched_race (init m_normal 0)) = Some ([2], Some 2, Some 2, W168, W93)"
    by (simp_all add: s_def sched2_defs eval_defs)
  from waiter_list_consistent [OF r] have "wf_queue (cv s) (nodes s) (attached s)" by blast
  with v show ?thesis by (simp add: s_def)
qed

lemma race_cas_first:
  assumes "w_pc (wthr s a) = W111" "state (nodes s a) = WAITING" "s_pc (sthr s r) = S221"
    "s_p (s_walk (sthr s r)) = Some a" "s_n (s_walk (sthr s r)) \<noteq> 0"
  shows "\<exists>s1. run [W_cas a, S_iter r] s = Some s1 \<and> state (nodes s1 a) = LEAVING
     \<and> w_pc (wthr s1 a) = W127 \<and> w_oldstate (wthr s1 a) = WAITING
     \<and> notify (nodes s1 a) = Some r
     \<and> s_ref (s_walk (sthr s1 r)) = s_ref (s_walk (sthr s r)) + 1
     \<and> s_n (s_walk (sthr s1 r)) = s_n (s_walk (sthr s r))
     \<and> s_first (s_walk (sthr s1 r)) = s_first (s_walk (sthr s r))"
  using assms by (simp add: w_cas_def s_iter_def walk_iter_def a_cas_def upd_defs Let_def)

lemma race_signal_first:
  assumes "w_pc (wthr s a) = W111" "state (nodes s a) = WAITING" "s_pc (sthr s r) = S221"
    "s_p (s_walk (sthr s r)) = Some a" "s_n (s_walk (sthr s r)) \<noteq> 0"
  shows "\<exists>s2. run [S_iter r, W_cas a] s = Some s2 \<and> state (nodes s2 a) = SIGNALED
     \<and> w_pc (wthr s2 a) = W162 \<and> w_oldstate (wthr s2 a) = SIGNALED
     \<and> notify (nodes s2 a) = notify (nodes s a)
     \<and> s_ref (s_walk (sthr s2 r)) = s_ref (s_walk (sthr s r))
     \<and> s_n (s_walk (sthr s2 r)) = s_n (s_walk (sthr s r)) - 1
     \<and> s_first (s_walk (sthr s2 r))
         = (if s_first (s_walk (sthr s r)) = None then Some a else s_first (s_walk (sthr s r)))"
  using assms by (simp add: w_cas_def s_iter_def walk_iter_def a_cas_def upd_defs Let_def)

lemma state_change:
  assumes i: "sys_inv s" and st: "step act s = Some s'"
    and ne: "state (nodes s' x) \<noteq> state (nodes s x)"
  shows "state (nodes s x) = WAITING
     \<and> ((act = W_cas x \<and> state (nodes s' x) = LEAVING \<and> w_pc (wthr s' x) = W127)
        \<or> ((\<exists>r. act = S_iter r \<and> s_p (s_walk (sthr s r)) = Some x)
            \<and> state (nodes s' x) = SIGNALED))"
proof -
  note ss = step_state [OF st, of x]
  have enq: "state (nodes s x) = WAITING" if "act = W_enqueue x"
  proof -
    from st that have "w_enqueue x s = Some s'" by simp
    from inv_nodeD(1) [OF i w_enqueue_eff(1) [OF this]] show ?thesis by simp
  qed
  have cas: "w_pc (wthr s' x) = W127" if "act = W_cas x" "state (nodes s x) = WAITING"
  proof -
    from st that have "w_cas x s = Some s'" by simp
    from w_cas_eff(6) [OF this] that show ?thesis by simp
  qed
  show ?thesis
  proof (cases "act = W_enqueue x \<and> w_pc (wthr s' x) \<noteq> W_fault")
    case True
    with ss enq ne show ?thesis by simp
  next
    case f1: False
    show ?thesis
    proof (cases "act = W_cas x \<and> state (nodes s x) = WAITING")
      case True
      with ss f1 cas show ?thesis by simp
    next
      case f2: False
      show ?thesis
      proof (cases "(\<exists>r. act = S_iter r \<and> s_p (s_walk (sthr s r)) = Some x)
          \<and> state (nodes s x) = WAITING")
        case True
        with ss f1 f2 show ?thesis by auto
      next
        case False
        with ss f1 f2 have "state (nodes s' x) = state (nodes s x)" by auto
        with ne show ?thesis by simp
      qed
    qed
  qed
qed

text \<open>
  C1. In every state that an interleaving of calls reaches from the initial state, the
  \<open>state\<close> of a node changes only away from \<open>WAITING\<close>, and only by the
  compare-and-swap of its own waiter at line 111, to \<open>LEAVING\<close>, or by the
  compare-and-swap of a signaller whose loop is at this node (line 223), to
  \<open>SIGNALED\<close>: so it changes at most once. A waiter that is past line 111 has seen
  the outcome in \<open>oldstate\<close>: on the path of the timeout (lines 127-153) its node is
  \<open>LEAVING\<close> and it read \<open>WAITING\<close>; on the other path (lines 162-194) its node
  is \<open>SIGNALED\<close> and it read \<open>SIGNALED\<close>; where the paths have joined, one of the
  two holds. A node that a signaller has visited is \<open>SIGNALED\<close>, or \<open>LEAVING\<close>
  with \<open>notify\<close> set. When a waiter is at line 111 with its node \<open>WAITING\<close> and a
  signaller's loop is at this node, both orders of the two compare-and-swaps run: the
  waiter first gives the timeout, which the signaller counts in \<open>ref\<close> without
  consuming a signal; the signaller first gives the consumed signal, which the waiter
  reads.
\<close>

theorem exclusive_outcome:
  assumes "run sched (init m clk) = Some s"
  shows "(\<forall>act s' x. step act s = Some s' \<and> state (nodes s' x) \<noteq> state (nodes s x) \<longrightarrow>
            state (nodes s x) = WAITING
            \<and> ((act = W_cas x \<and> state (nodes s' x) = LEAVING \<and> w_pc (wthr s' x) = W127)
               \<or> ((\<exists>r. act = S_iter r \<and> s_p (s_walk (sthr s r)) = Some x)
                   \<and> state (nodes s' x) = SIGNALED)))
    \<and> (\<forall>a. (w_pc (wthr s a) = W127 \<or> w_pc (wthr s a) = W150 \<longrightarrow>
               state (nodes s a) = LEAVING \<and> w_oldstate (wthr s a) = WAITING)
          \<and> (w_pc (wthr s a) = W162 \<or> w_pc (wthr s a) = W186 \<or> w_pc (wthr s a) = W191 \<longrightarrow>
               state (nodes s a) = SIGNALED \<and> w_oldstate (wthr s a) = SIGNALED)
          \<and> (w_pc (wthr s a) = W168 \<or> w_pc (wthr s a) = W200 \<longrightarrow>
               (state (nodes s a) = LEAVING \<and> w_oldstate (wthr s a) = WAITING)
               \<or> (state (nodes s a) = SIGNALED \<and> w_oldstate (wthr s a) = SIGNALED)))
    \<and> (\<forall>r x. x \<in> set (s_seen (s_walk (sthr s r))) \<longrightarrow>
          state (nodes s x) = SIGNALED
          \<or> (state (nodes s x) = LEAVING \<and> notify (nodes s x) = Some r))
    \<and> (\<forall>a r. w_pc (wthr s a) = W111 \<and> state (nodes s a) = WAITING
            \<and> s_pc (sthr s r) = S221 \<and> s_p (s_walk (sthr s r)) = Some a
            \<and> s_n (s_walk (sthr s r)) \<noteq> 0 \<longrightarrow>
          (\<exists>s1. run [W_cas a, S_iter r] s = Some s1 \<and> state (nodes s1 a) = LEAVING
             \<and> w_pc (wthr s1 a) = W127 \<and> w_oldstate (wthr s1 a) = WAITING
             \<and> notify (nodes s1 a) = Some r
             \<and> s_ref (s_walk (sthr s1 r)) = s_ref (s_walk (sthr s r)) + 1
             \<and> s_n (s_walk (sthr s1 r)) = s_n (s_walk (sthr s r))
             \<and> s_first (s_walk (sthr s1 r)) = s_first (s_walk (sthr s r)))
          \<and> (\<exists>s2. run [S_iter r, W_cas a] s = Some s2 \<and> state (nodes s2 a) = SIGNALED
             \<and> w_pc (wthr s2 a) = W162 \<and> w_oldstate (wthr s2 a) = SIGNALED
             \<and> notify (nodes s2 a) = notify (nodes s a)
             \<and> s_ref (s_walk (sthr s2 r)) = s_ref (s_walk (sthr s r))
             \<and> s_n (s_walk (sthr s2 r)) = s_n (s_walk (sthr s r)) - 1
             \<and> s_first (s_walk (sthr s2 r))
                 = (if s_first (s_walk (sthr s r)) = None then Some a
                    else s_first (s_walk (sthr s r)))))"
proof -
  note i = sys_inv_run [OF assms]
  have p1: "state (nodes s x) = WAITING
     \<and> ((act = W_cas x \<and> state (nodes s' x) = LEAVING \<and> w_pc (wthr s' x) = W127)
        \<or> ((\<exists>r. act = S_iter r \<and> s_p (s_walk (sthr s r)) = Some x)
            \<and> state (nodes s' x) = SIGNALED))"
    if "step act s = Some s' \<and> state (nodes s' x) \<noteq> state (nodes s x)" for act s' x
    using state_change [OF i, of act s' x] that by blast
  have p2: "(w_pc (wthr s a) = W127 \<or> w_pc (wthr s a) = W150 \<longrightarrow>
               state (nodes s a) = LEAVING \<and> w_oldstate (wthr s a) = WAITING)
          \<and> (w_pc (wthr s a) = W162 \<or> w_pc (wthr s a) = W186 \<or> w_pc (wthr s a) = W191 \<longrightarrow>
               state (nodes s a) = SIGNALED \<and> w_oldstate (wthr s a) = SIGNALED)
          \<and> (w_pc (wthr s a) = W168 \<or> w_pc (wthr s a) = W200 \<longrightarrow>
               (state (nodes s a) = LEAVING \<and> w_oldstate (wthr s a) = WAITING)
               \<or> (state (nodes s a) = SIGNALED \<and> w_oldstate (wthr s a) = SIGNALED))" for a
    using invD(5) [OF i, of a] by (auto simp: inv_node_def Let_def)
  have p3: "state (nodes s x) = SIGNALED
          \<or> (state (nodes s x) = LEAVING \<and> notify (nodes s x) = Some r)"
    if "x \<in> set (s_seen (s_walk (sthr s r)))" for r x
    using inv_seenD(1) [OF i that] .
  from p1 p2 p3 race_cas_first [of s] race_signal_first [of s] show ?thesis by blast
qed

theorem exclusive_outcome_witness:
  "(\<exists>s1. run [W_cas 1, S_iter 9] st_both = Some s1 \<and> state (nodes s1 1) = LEAVING
      \<and> w_pc (wthr s1 1) = W127 \<and> notify (nodes s1 1) = Some 9
      \<and> s_ref (s_walk (sthr s1 9)) = 1 \<and> s_n (s_walk (sthr s1 9)) = 1)
   \<and> (\<exists>s2. run [S_iter 9, W_cas 1] st_both = Some s2 \<and> state (nodes s2 1) = SIGNALED
      \<and> w_pc (wthr s2 1) = W162 \<and> notify (nodes s2 1) = None
      \<and> s_ref (s_walk (sthr s2 9)) = 0 \<and> s_n (s_walk (sthr s2 9)) = 0)"
proof -
  have r: "run sched_both (init m_normal 0) = Some st_both"
    by (simp add: sched2_defs eval_defs)
  have v: "w_pc (wthr st_both 1) = W111 \<and> state (nodes st_both 1) = WAITING
      \<and> s_pc (sthr st_both 9) = S221 \<and> s_p (s_walk (sthr st_both 9)) = Some 1
      \<and> s_n (s_walk (sthr st_both 9)) \<noteq> 0"
    and w: "notify (nodes st_both 1) = None" "s_ref (s_walk (sthr st_both 9)) = 0"
      "s_n (s_walk (sthr st_both 9)) = 1"
    by (simp_all add: sched2_defs eval_defs)
  from exclusive_outcome [OF r] v
  have "(\<exists>s1. run [W_cas 1, S_iter 9] st_both = Some s1 \<and> state (nodes s1 1) = LEAVING
             \<and> w_pc (wthr s1 1) = W127 \<and> w_oldstate (wthr s1 1) = WAITING
             \<and> notify (nodes s1 1) = Some 9
             \<and> s_ref (s_walk (sthr s1 9)) = s_ref (s_walk (sthr st_both 9)) + 1
             \<and> s_n (s_walk (sthr s1 9)) = s_n (s_walk (sthr st_both 9))
             \<and> s_first (s_walk (sthr s1 9)) = s_first (s_walk (sthr st_both 9)))
          \<and> (\<exists>s2. run [S_iter 9, W_cas 1] st_both = Some s2 \<and> state (nodes s2 1) = SIGNALED
             \<and> w_pc (wthr s2 1) = W162 \<and> w_oldstate (wthr s2 1) = SIGNALED
             \<and> notify (nodes s2 1) = notify (nodes st_both 1)
             \<and> s_ref (s_walk (sthr s2 9)) = s_ref (s_walk (sthr st_both 9))
             \<and> s_n (s_walk (sthr s2 9)) = s_n (s_walk (sthr st_both 9)) - 1
             \<and> s_first (s_walk (sthr s2 9))
                 = (if s_first (s_walk (sthr st_both 9)) = None then Some 1
                    else s_first (s_walk (sthr st_both 9))))"
    by blast
  with w show ?thesis by auto
qed

lemma s_iter_counts:
  assumes "s_iter r s = Some s'" "s_p (s_walk (sthr s r)) = Some x"
  shows "(state (nodes s x) \<noteq> WAITING \<longrightarrow>
            s_ref (s_walk (sthr s' r)) = s_ref (s_walk (sthr s r)) + 1
            \<and> notify (nodes s' x) = Some r
            \<and> s_n (s_walk (sthr s' r)) = s_n (s_walk (sthr s r))
            \<and> s_first (s_walk (sthr s' r)) = s_first (s_walk (sthr s r)))
       \<and> (state (nodes s x) = WAITING \<longrightarrow>
            s_ref (s_walk (sthr s' r)) = s_ref (s_walk (sthr s r))
            \<and> notify (nodes s' x) = notify (nodes s x))"
  using assms
  by (auto simp: s_iter_def walk_iter_def a_cas_def upd_defs Let_def split: if_split_asm)

lemma w_notify_counts:
  assumes "w_notify a s = Some s'" "notify (nodes s a) = Some r"
  shows "s_ref (s_walk (sthr s' r)) = s_ref (s_walk (sthr s r)) - 1"
  using assms by (auto simp: w_notify_def upd_defs Let_def split: if_split_asm)

lemma ref_zero:
  assumes i: "sys_inv s" and pc: "s_pc (sthr s r) = S250"
  shows "s_ref (s_walk (sthr s r)) = 0 \<longleftrightarrow> pending s r = {}"
proof -
  from inv_refD(1) [OF i, of r] pc
  have "s_ref (s_walk (sthr s r)) = int (card (pending s r))" by simp
  with pending_finite [OF i, of r] show ?thesis by simp
qed

lemma notified_done:
  assumes i: "sys_inv s" and pc: "s_pc (sthr s r) = S254 \<or> s_pc (sthr s r) = S_ret"
    and n: "notify (nodes s a) = Some r"
  shows "state (nodes s a) = LEAVING \<and> a \<notin> set (attached s)
     \<and> (w_pc (wthr s a) = W168 \<or> w_pc (wthr s a) = W200 \<or> (\<exists>v. w_pc (wthr s a) = W_ret v)
        \<or> w_pc (wthr s a) = W_cancelled)"
proof -
  from inv_seenD(2) [OF i n] have l: "state (nodes s a) = LEAVING" by simp
  from inv_refD(2) [OF i pc] n
  have np: "w_pc (wthr s a) \<noteq> W127" "w_pc (wthr s a) \<noteq> W150"
    by (auto simp: pending_def)
  from invD(5) [OF i, of a] l np show ?thesis
    by (cases "w_pc (wthr s a)") (simp_all add: inv_node_def Let_def)
qed

lemma notify_signaller:
  assumes i: "sys_inv s" and e: "w_notify a s = Some s'" and n: "notify (nodes s a) = Some r"
  shows "(s_pc (sthr s r) = S221 \<or> s_pc (sthr s r) = S250) \<and> a \<notin> set (attached s)"
proof -
  note f = w_notify_eff [OF e]
  from f(1) n have p: "a \<in> pending s r" by (simp add: pending_def)
  from inv_seenD(2) [OF i n] have sn: "a \<in> set (s_seen (s_walk (sthr s r)))" by simp
  have 1: "s_pc (sthr s r) \<noteq> S220" using inv_walkD(3) [OF i, of r] sn by auto
  have 2: "\<not> (s_pc (sthr s r) = S254 \<or> s_pc (sthr s r) = S_ret)"
    using inv_refD(2) [OF i, of r] p by auto
  from 1 2 have "s_pc (sthr s r) = S221 \<or> s_pc (sthr s r) = S250"
    by (cases "s_pc (sthr s r)") simp_all
  with inv_nodeD(4) [OF i f(1)] show ?thesis by simp
qed

text \<open>
  C3. In every state that an interleaving of calls reaches from the initial state: an
  iteration of the loop (lines 221-235) at a node that is not \<open>WAITING\<close>, which is
  then \<open>LEAVING\<close>, adds 1 to \<open>ref\<close> and sets the \<open>notify\<close> of the node to the
  counter, and at a \<open>WAITING\<close> node leaves both as they are; \<open>notify\<close> points to the
  counter of a signaller on \<open>LEAVING\<close> nodes that this signaller has visited only;
  a waiter subtracts 1 from the counter (lines 150-153) after it has taken its node
  off the list, and while the signaller is still before line 254; until the loop of
  lines 250-251 is left, \<open>ref\<close> is the number of waiters with \<open>notify\<close> on this
  counter that are at lines 127-153; that loop is left only on reading 0, which is when
  there is no such waiter; the barrier of \<open>first\<close> is released (lines 254-255) only
  after that, and from then on every node with \<open>notify\<close> on this counter is off the
  list and its waiter is past line 153.
\<close>

theorem signal_waits_for_leaving:
  assumes "run sched (init m clk) = Some s"
  shows "(\<forall>r. s_pc (sthr s r) = S221 \<or> s_pc (sthr s r) = S250 \<longrightarrow>
            finite (pending s r) \<and> s_ref (s_walk (sthr s r)) = int (card (pending s r)))
    \<and> (\<forall>r a. notify (nodes s a) = Some r \<longrightarrow>
          state (nodes s a) = LEAVING \<and> a \<in> set (s_seen (s_walk (sthr s r))))
    \<and> (\<forall>r a. (s_pc (sthr s r) = S254 \<or> s_pc (sthr s r) = S_ret)
            \<and> notify (nodes s a) = Some r \<longrightarrow>
          state (nodes s a) = LEAVING \<and> a \<notin> set (attached s)
          \<and> (w_pc (wthr s a) = W168 \<or> w_pc (wthr s a) = W200
             \<or> (\<exists>v. w_pc (wthr s a) = W_ret v) \<or> w_pc (wthr s a) = W_cancelled))
    \<and> (\<forall>r s' x. s_iter r s = Some s' \<and> s_p (s_walk (sthr s r)) = Some x \<longrightarrow>
          state (nodes s x) \<noteq> SIGNALED
          \<and> (state (nodes s x) = LEAVING \<longrightarrow>
               s_ref (s_walk (sthr s' r)) = s_ref (s_walk (sthr s r)) + 1
               \<and> notify (nodes s' x) = Some r
               \<and> s_n (s_walk (sthr s' r)) = s_n (s_walk (sthr s r))
               \<and> s_first (s_walk (sthr s' r)) = s_first (s_walk (sthr s r)))
          \<and> (state (nodes s x) = WAITING \<longrightarrow>
               s_ref (s_walk (sthr s' r)) = s_ref (s_walk (sthr s r))
               \<and> notify (nodes s' x) = None))
    \<and> (\<forall>a r s'. w_notify a s = Some s' \<and> notify (nodes s a) = Some r \<longrightarrow>
          (s_pc (sthr s r) = S221 \<or> s_pc (sthr s r) = S250) \<and> a \<notin> set (attached s)
          \<and> s_ref (s_walk (sthr s' r)) = s_ref (s_walk (sthr s r)) - 1)
    \<and> (\<forall>r s'. s_wait r s = Some s' \<longrightarrow>
          s_pc (sthr s r) = S250
          \<and> (pending s r = {} \<longrightarrow> s_pc (sthr s' r) = S254)
          \<and> (pending s r \<noteq> {} \<longrightarrow> s_pc (sthr s' r) = S250))
    \<and> (\<forall>r s'. s_unlock r s = Some s' \<longrightarrow>
          s_pc (sthr s r) = S254 \<and> pending s r = {} \<and> s_pc (sthr s' r) = S_ret)"
proof -
  note i = sys_inv_run [OF assms]
  have p1: "finite (pending s r) \<and> s_ref (s_walk (sthr s r)) = int (card (pending s r))"
    if "s_pc (sthr s r) = S221 \<or> s_pc (sthr s r) = S250" for r
    using inv_refD(1) [OF i that] pending_finite [OF i] by simp
  have p2: "state (nodes s a) = LEAVING \<and> a \<in> set (s_seen (s_walk (sthr s r)))"
    if "notify (nodes s a) = Some r" for r a
    using inv_seenD(2) [OF i that] .
  have p3: "state (nodes s a) = LEAVING \<and> a \<notin> set (attached s)
          \<and> (w_pc (wthr s a) = W168 \<or> w_pc (wthr s a) = W200
             \<or> (\<exists>v. w_pc (wthr s a) = W_ret v) \<or> w_pc (wthr s a) = W_cancelled)"
    if "(s_pc (sthr s r) = S254 \<or> s_pc (sthr s r) = S_ret) \<and> notify (nodes s a) = Some r"
    for r a
    using notified_done [OF i, of r a] that by blast
  have p4: "state (nodes s x) \<noteq> SIGNALED
          \<and> (state (nodes s x) = LEAVING \<longrightarrow>
               s_ref (s_walk (sthr s' r)) = s_ref (s_walk (sthr s r)) + 1
               \<and> notify (nodes s' x) = Some r
               \<and> s_n (s_walk (sthr s' r)) = s_n (s_walk (sthr s r))
               \<and> s_first (s_walk (sthr s' r)) = s_first (s_walk (sthr s r)))
          \<and> (state (nodes s x) = WAITING \<longrightarrow>
               s_ref (s_walk (sthr s' r)) = s_ref (s_walk (sthr s r))
               \<and> notify (nodes s' x) = None)"
    if h: "s_iter r s = Some s' \<and> s_p (s_walk (sthr s r)) = Some x" for r s' x
  proof -
    from h have e: "s_iter r s = Some s'" and x: "s_p (s_walk (sthr s r)) = Some x" by simp_all
    note w = walk_next [OF i s_iter_eff(1) [OF e] x]
    from s_iter_counts [OF e x] w(3) w(5) show ?thesis by simp
  qed
  have p5: "(s_pc (sthr s r) = S221 \<or> s_pc (sthr s r) = S250) \<and> a \<notin> set (attached s)
          \<and> s_ref (s_walk (sthr s' r)) = s_ref (s_walk (sthr s r)) - 1"
    if "w_notify a s = Some s' \<and> notify (nodes s a) = Some r" for a r s'
    using notify_signaller [OF i, of a s' r] w_notify_counts [of a s s' r] that by blast
  have p6: "s_pc (sthr s r) = S250
          \<and> (pending s r = {} \<longrightarrow> s_pc (sthr s' r) = S254)
          \<and> (pending s r \<noteq> {} \<longrightarrow> s_pc (sthr s' r) = S250)"
    if e: "s_wait r s = Some s'" for r s'
    using s_wait_eff(1) [OF e] s_wait_eff(8) [OF e] ref_zero [OF i s_wait_eff(1) [OF e]]
    by simp
  have p7: "s_pc (sthr s r) = S254 \<and> pending s r = {} \<and> s_pc (sthr s' r) = S_ret"
    if e: "s_unlock r s = Some s'" for r s'
    using s_unlock_eff(1) [OF e] s_unlock_eff(7) [OF e] inv_refD(2) [OF i, of r] by simp
  from p1 p2 p3 p4 p5 p6 p7 show ?thesis by blast
qed

theorem signal_waits_for_leaving_witness:
  "map_option (\<lambda>s. (s_pc (sthr s 9), s_ref (s_walk (sthr s 9)), notify (nodes s 1)))
     (run (take 9 sched_race) (init m_normal 0)) = Some (S250, 1, Some 9)
   \<and> map_option (\<lambda>s. (s_pc (sthr s 9), s_ref (s_walk (sthr s 9)), notify (nodes s 1),
        futex_log s)) (run sched_race (init m_normal 0))
       = Some (S_ret, 0, Some 9, [Wake (F_ref 9) 1])
   \<and> 1 \<notin> set (attached (the (run sched_race (init m_normal 0))))
   \<and> w_pc (wthr (the (run sched_race (init m_normal 0))) 1) = W168"
proof -
  define s where "s = the (run sched_race (init m_normal 0))"
  have r: "run sched_race (init m_normal 0) = Some s"
    and v: "map_option (\<lambda>s. (s_pc (sthr s 9), s_ref (s_walk (sthr s 9)), notify (nodes s 1)))
     (run (take 9 sched_race) (init m_normal 0)) = Some (S250, 1, Some 9)"
     "map_option (\<lambda>s. (s_pc (sthr s 9), s_ref (s_walk (sthr s 9)), notify (nodes s 1),
        futex_log s)) (run sched_race (init m_normal 0))
       = Some (S_ret, 0, Some 9, [Wake (F_ref 9) 1])"
     "w_pc (wthr (the (run sched_race (init m_normal 0))) 1) = W168"
    by (simp_all add: s_def sched2_defs eval_defs)
  from v(2) r have h: "(s_pc (sthr s 9) = S254 \<or> s_pc (sthr s 9) = S_ret)
      \<and> notify (nodes s 1) = Some 9" by simp
  from signal_waits_for_leaving [OF r] h have "1 \<notin> set (attached s)" by blast
  with v show ?thesis by (simp add: s_def)
qed

lemma sig_stage_le: "sig_stage t = Some k \<Longrightarrow> k \<le> 4"
  by (cases "w_pc t") (simp_all add: sig_stage_def split: if_split_asm)

lemma sig_stage_own:
  assumes st: "step act s = Some s1" and ac: "wactor act = Some a"
    and k: "sig_stage (wthr s a) = Some k"
  shows "sig_stage (wthr s1 a) = Some (Suc k) \<and> (act = W_inc a \<longleftrightarrow> k = 1)
     \<and> (act = W_next a \<longleftrightarrow> k = 2)"
proof (cases act)
  case (W_mlock b tmp lk)
  with st ac k show ?thesis
    by (cases "w_pc (wthr s a)")
       (auto simp: sig_stage_def w_mlock_def upd_defs split: if_split_asm)
next
  case (W_inc b)
  with st ac k show ?thesis
    by (cases "w_pc (wthr s a)")
       (auto simp: sig_stage_def w_inc_def upd_defs split: if_split_asm)
next
  case (W_next b)
  with st ac k show ?thesis
    by (cases "w_pc (wthr s a)")
       (auto simp: sig_stage_def w_next_def upd_defs Let_def split: if_split_asm option.splits)
next
  case (W_done b pend)
  with st ac k show ?thesis
    by (cases "w_pc (wthr s a)")
       (auto simp: sig_stage_def w_done_def upd_defs split: if_split_asm)
qed (use own_pc [OF st ac] k in \<open>auto simp: sig_stage_def\<close>)

lemma sig_stage_run:
  assumes "run sched s = Some s'" and "sig_stage (wthr s a) = Some k"
  shows "\<exists>k'. sig_stage (wthr s' a) = Some k' \<and> k \<le> k'
     \<and> filter (\<lambda>act. act = W_inc a \<or> act = W_next a) sched
         = drop (k - 1) (take (k' - 1) [W_inc a, W_next a])"
  using assms
proof (induction sched arbitrary: s k)
  case Nil
  then show ?case by simp
next
  case (Cons act sched)
  from Cons.prems(1) obtain s1 where s1: "step act s = Some s1" and r: "run sched s1 = Some s'"
    by (auto split: option.splits)
  show ?case
  proof (cases "wactor act = Some a")
    case False
    then have ne: "act \<noteq> W_inc a" "act \<noteq> W_next a" by auto
    from wthr_other [OF s1 False] Cons.prems(2) have "sig_stage (wthr s1 a) = Some k" by simp
    from Cons.IH [OF r this] ne show ?thesis by simp
  next
    case True
    note o = sig_stage_own [OF s1 True Cons.prems(2)]
    from o have k1: "sig_stage (wthr s1 a) = Some (Suc k)" by simp
    from Cons.IH [OF r k1] obtain k' where
      k': "sig_stage (wthr s' a) = Some k'" and le: "Suc k \<le> k'"
      and f: "filter (\<lambda>act. act = W_inc a \<or> act = W_next a) sched
         = drop k (take (k' - 1) [W_inc a, W_next a])" by auto
    from sig_stage_le [OF k'] have k4: "k' \<le> 4" .
    from le k4 consider "k = 0" | "k = 1" | "k = 2" | "k = 3" by linarith
    then have "filter (\<lambda>act. act = W_inc a \<or> act = W_next a) (act # sched)
         = drop (k - 1) (take (k' - 1) [W_inc a, W_next a])"
    proof cases
      case 1
      with o f show ?thesis by simp
    next
      case 2
      with le k4 have "k' = 2 \<or> k' = 3 \<or> k' = 4" by linarith
      with 2 o f show ?thesis by (auto simp: numeral_2_eq_2 numeral_3_eq_3)
    next
      case 3
      with le k4 have "k' = 3 \<or> k' = 4" by linarith
      with 3 o f show ?thesis by (auto simp: numeral_2_eq_2 numeral_3_eq_3)
    next
      case 4
      with le k4 have "k' = 4" by linarith
      with 4 o f show ?thesis by (auto simp: numeral_2_eq_2 numeral_3_eq_3)
    qed
    with k' le show ?thesis by auto
  qed
qed

lemma waiters_step:
  assumes "step act t = Some t'"
  shows "m_waiters (mtx t') = m_waiters (mtx t)
          + (if \<exists>b. act = W_inc b \<and> next_w (nodes t b) = None then 1 else 0)
          - (if \<exists>b. act = W_next b \<and> prev (nodes t b) = None then 1 else 0)"
  using assms
  by (cases act)
     (auto simp: step_defs upd_defs Let_def split: if_split_asm option.splits)

lemma requeue_step:
  assumes "step act t = Some t'"
  shows "futex_log t' = futex_log t
     \<or> (\<exists>x n. futex_log t' = futex_log t @ [Wake x n])
     \<or> (\<exists>c b. act = W_next c \<and> prev (nodes t c) = Some b
           \<and> futex_log t' = futex_log t @ [Requeue (F_barrier b) 0 0 F_mlock 1])"
  using assms
  by (cases act)
     (auto simp: step_defs upd_defs Let_def split: if_split_asm option.splits)

lemma w_mlock_run:
  assumes "w_pc (wthr t a) = W168" "w_oldstate (wthr t a) \<noteq> WAITING"
  shows "\<exists>t'. step (W_mlock a tmp lk) t = Some t' \<and> w_pc (wthr t' a) = W186
     \<and> m_waiters (mtx t') = m_waiters (mtx t) \<and> nodes t' = nodes t
     \<and> futex_log t' = futex_log t"
  using assms by (simp add: w_mlock_def upd_defs)

lemma w_inc_run:
  assumes "w_pc (wthr t a) = W186"
  shows "\<exists>t'. step (W_inc a) t = Some t' \<and> w_pc (wthr t' a) = W191
     \<and> m_waiters (mtx t')
         = m_waiters (mtx t) + (if next_w (nodes t a) = None then 1 else 0)
     \<and> m_lock (mtx t') = m_lock (mtx t) \<and> nodes t' = nodes t
     \<and> futex_log t' = futex_log t"
  using assms by (simp add: w_inc_def upd_defs)

lemma w_next_run:
  assumes "w_pc (wthr t a) = W191"
  shows "\<exists>t'. step (W_next a) t = Some t' \<and> w_pc (wthr t' a) = W200
     \<and> m_lock (mtx t') = m_lock (mtx t)
     \<and> (case prev (nodes t a) of
           None \<Rightarrow> m_waiters (mtx t') = m_waiters (mtx t) - 1 \<and> nodes t' = nodes t
             \<and> futex_log t' = futex_log t
         | Some b \<Rightarrow> m_waiters (mtx t') = m_waiters (mtx t)
             \<and> nodes t' = (nodes t)(b := (nodes t b)\<lparr>barrier := 0\<rparr>)
             \<and> futex_log t' = futex_log t @ [Requeue (F_barrier b) 0 0 F_mlock 1])"
  using assms by (simp add: w_next_def upd_defs Let_def split: option.splits)

lemma reach_186:
  assumes "step act t = Some t'" "w_pc (wthr t' a) = W186" "w_pc (wthr t a) \<noteq> W186"
  shows "(\<exists>tmp lk. act = W_mlock a tmp lk) \<and> w_pc (wthr t a) = W168
     \<and> w_oldstate (wthr t a) \<noteq> WAITING"
proof (cases "wactor act = Some a")
  case False
  from wthr_other [OF assms(1) False] assms(2,3) show ?thesis by simp
next
  case True
  from own_pc [OF assms(1) True] assms(2) have m: "\<exists>tmp lk. act = W_mlock a tmp lk"
    and p: "w_pc (wthr t a) = W168"
    by (auto split: if_split_asm)
  from m assms(1,2) have "w_oldstate (wthr t a) \<noteq> WAITING"
    by (auto simp: w_mlock_def upd_defs split: if_split_asm)
  with m p show ?thesis by simp
qed

lemmas sched3_defs = sched_chain_def st_chain_def sched_chain_exit_def

text \<open>
  C5. A call whose node was not \<open>WAITING\<close> at line 111 goes from line 168 to line
  186, to line 191, to line 200 and returns, whatever the other threads do in between,
  and each of these steps can be taken where the call stands: so in every schedule the
  steps of lines 186-187 and of lines 191-194 of this call are one of each, in this
  order, once the call has reached line 200. The step of lines 186-187 adds one to the
  waiter counter of the mutex exactly when the node has no \<open>next\<close>, and changes
  nothing else of the shared memory. The step of lines 191-194 takes one off exactly
  when the node has no \<open>prev\<close>; when there is a \<open>prev\<close> node, it leaves the counter,
  stores 0 in the barrier of that node and requeues (wake count 0, requeue count 1)
  from that barrier to the lock word of the mutex, and makes no wake call. No other
  step of any thread changes the counter, and no other step requeues. Line 186 is
  reached only from line 168 and only when \<open>oldstate\<close> is not \<open>WAITING\<close>. The
  counter is a 32-bit word.
\<close>

theorem signaled_path_waiters_count:
  assumes "run sched s = Some s'" and "w_pc (wthr s a) = W168"
    and "w_oldstate (wthr s a) \<noteq> WAITING"
  shows "filter (\<lambda>act. act = W_inc a \<or> act = W_next a) sched
           = (if w_pc (wthr s' a) = W168 \<or> w_pc (wthr s' a) = W186 then []
              else if w_pc (wthr s' a) = W191 then [W_inc a] else [W_inc a, W_next a])
    \<and> (w_pc (wthr s' a) = W168 \<or> w_pc (wthr s' a) = W186 \<or> w_pc (wthr s' a) = W191
        \<or> w_pc (wthr s' a) = W200 \<or> w_pc (wthr s' a) = W_cancelled
        \<or> (\<exists>v. w_pc (wthr s' a) = W_ret v))
    \<and> (\<forall>t tmp lk. w_pc (wthr t a) = W168 \<and> w_oldstate (wthr t a) \<noteq> WAITING \<longrightarrow>
          (\<exists>t'. step (W_mlock a tmp lk) t = Some t' \<and> w_pc (wthr t' a) = W186
             \<and> m_waiters (mtx t') = m_waiters (mtx t) \<and> nodes t' = nodes t
             \<and> futex_log t' = futex_log t))
    \<and> (\<forall>t. w_pc (wthr t a) = W186 \<longrightarrow>
          (\<exists>t'. step (W_inc a) t = Some t' \<and> w_pc (wthr t' a) = W191
             \<and> m_waiters (mtx t')
                 = m_waiters (mtx t) + (if next_w (nodes t a) = None then 1 else 0)
             \<and> m_lock (mtx t') = m_lock (mtx t) \<and> nodes t' = nodes t
             \<and> futex_log t' = futex_log t))
    \<and> (\<forall>t. w_pc (wthr t a) = W191 \<longrightarrow>
          (\<exists>t'. step (W_next a) t = Some t' \<and> w_pc (wthr t' a) = W200
             \<and> m_lock (mtx t') = m_lock (mtx t)
             \<and> (case prev (nodes t a) of
                   None \<Rightarrow> m_waiters (mtx t') = m_waiters (mtx t) - 1 \<and> nodes t' = nodes t
                     \<and> futex_log t' = futex_log t
                 | Some b \<Rightarrow> m_waiters (mtx t') = m_waiters (mtx t)
                     \<and> nodes t' = (nodes t)(b := (nodes t b)\<lparr>barrier := 0\<rparr>)
                     \<and> futex_log t' = futex_log t @ [Requeue (F_barrier b) 0 0 F_mlock 1])))
    \<and> (\<forall>act t t'. step act t = Some t' \<longrightarrow>
          m_waiters (mtx t') = m_waiters (mtx t)
            + (if \<exists>b. act = W_inc b \<and> next_w (nodes t b) = None then 1 else 0)
            - (if \<exists>b. act = W_next b \<and> prev (nodes t b) = None then 1 else 0))
    \<and> (\<forall>act t t'. step act t = Some t' \<longrightarrow>
          futex_log t' = futex_log t
          \<or> (\<exists>x n. futex_log t' = futex_log t @ [Wake x n])
          \<or> (\<exists>c b. act = W_next c \<and> prev (nodes t c) = Some b
                \<and> futex_log t' = futex_log t @ [Requeue (F_barrier b) 0 0 F_mlock 1]))
    \<and> (\<forall>act t t'. step act t = Some t' \<and> w_pc (wthr t' a) = W186
            \<and> w_pc (wthr t a) \<noteq> W186 \<longrightarrow>
          (\<exists>tmp lk. act = W_mlock a tmp lk) \<and> w_pc (wthr t a) = W168
          \<and> w_oldstate (wthr t a) \<noteq> WAITING)"
proof -
  from assms(2,3) have k: "sig_stage (wthr s a) = Some 0" by (simp add: sig_stage_def)
  from sig_stage_run [OF assms(1) k] obtain k' where
    k': "sig_stage (wthr s' a) = Some k'"
    and f: "filter (\<lambda>act. act = W_inc a \<or> act = W_next a) sched
         = take (k' - 1) [W_inc a, W_next a]" by auto
  have p1: "filter (\<lambda>act. act = W_inc a \<or> act = W_next a) sched
           = (if w_pc (wthr s' a) = W168 \<or> w_pc (wthr s' a) = W186 then []
              else if w_pc (wthr s' a) = W191 then [W_inc a] else [W_inc a, W_next a])"
    using k' f
    by (cases "w_pc (wthr s' a)")
       (auto simp: sig_stage_def numeral_2_eq_2 numeral_3_eq_3 split: if_split_asm)
  have p2: "w_pc (wthr s' a) = W168 \<or> w_pc (wthr s' a) = W186 \<or> w_pc (wthr s' a) = W191
        \<or> w_pc (wthr s' a) = W200 \<or> w_pc (wthr s' a) = W_cancelled
        \<or> (\<exists>v. w_pc (wthr s' a) = W_ret v)"
    using k' by (cases "w_pc (wthr s' a)") (simp_all add: sig_stage_def)
  have p3: "\<exists>t'. step (W_mlock a tmp lk) t = Some t' \<and> w_pc (wthr t' a) = W186
             \<and> m_waiters (mtx t') = m_waiters (mtx t) \<and> nodes t' = nodes t
             \<and> futex_log t' = futex_log t"
    if "w_pc (wthr t a) = W168 \<and> w_oldstate (wthr t a) \<noteq> WAITING" for t tmp lk
    using w_mlock_run [of t a tmp lk] that by blast
  have p8: "(\<exists>tmp lk. act = W_mlock a tmp lk) \<and> w_pc (wthr t a) = W168
          \<and> w_oldstate (wthr t a) \<noteq> WAITING"
    if "step act t = Some t' \<and> w_pc (wthr t' a) = W186 \<and> w_pc (wthr t a) \<noteq> W186"
    for act t t'
    using reach_186 [of act t t' a] that by blast
  from p1 p2 p3 w_inc_run [of _ a] w_next_run [of _ a] waiters_step requeue_step p8
  show ?thesis by blast
qed

theorem signaled_path_waiters_count_witness:
  "w_pc (wthr st_chain 1) = W168 \<and> w_oldstate (wthr st_chain 1) = SIGNALED
   \<and> next_w (nodes st_chain 1) = None \<and> prev (nodes st_chain 1) = Some 2
   \<and> next_w (nodes st_chain 2) = Some 1 \<and> prev (nodes st_chain 2) = None
   \<and> map (\<lambda>n. map_option (\<lambda>s. (m_waiters (mtx s), barrier (nodes s 2), futex_log s))
             (run (take n sched_chain_exit) st_chain)) [1, 2, 3, 9, 10]
       = [Some (0, 2, [Wake (F_barrier 1) 1]),
          Some (1, 2, [Wake (F_barrier 1) 1]),
          Some (1, 0, [Wake (F_barrier 1) 1, Requeue (F_barrier 2) 0 0 F_mlock 1]),
          Some (1, 1, [Wake (F_barrier 1) 1, Requeue (F_barrier 2) 0 0 F_mlock 1]),
          Some (0, 1, [Wake (F_barrier 1) 1, Requeue (F_barrier 2) 0 0 F_mlock 1])]
   \<and> map_option (\<lambda>s. (w_pc (wthr s 1), w_pc (wthr s 2)))
        (run sched_chain_exit st_chain) = Some (W_ret 0, W_ret 0)
   \<and> filter (\<lambda>act. act = W_inc 1 \<or> act = W_next 1) sched_chain_exit = [W_inc 1, W_next 1]"
proof -
  define s' where "s' = the (run sched_chain_exit st_chain)"
  have r: "run sched_chain_exit st_chain = Some s'"
    and h: "w_pc (wthr st_chain 1) = W168" "w_oldstate (wthr st_chain 1) = SIGNALED"
    and n: "next_w (nodes st_chain 1) = None \<and> prev (nodes st_chain 1) = Some 2
       \<and> next_w (nodes st_chain 2) = Some 1 \<and> prev (nodes st_chain 2) = None"
    and e: "map_option (\<lambda>s. (w_pc (wthr s 1), w_pc (wthr s 2)))
        (run sched_chain_exit st_chain) = Some (W_ret 0, W_ret 0)"
    by (simp_all add: s'_def sched3_defs eval_defs)
  have v: "map (\<lambda>n. map_option (\<lambda>s. (m_waiters (mtx s), barrier (nodes s 2), futex_log s))
             (run (take n sched_chain_exit) st_chain)) [1, 2, 3, 9, 10]
       = [Some (0, 2, [Wake (F_barrier 1) 1]),
          Some (1, 2, [Wake (F_barrier 1) 1]),
          Some (1, 0, [Wake (F_barrier 1) 1, Requeue (F_barrier 2) 0 0 F_mlock 1]),
          Some (1, 1, [Wake (F_barrier 1) 1, Requeue (F_barrier 2) 0 0 F_mlock 1]),
          Some (0, 1, [Wake (F_barrier 1) 1, Requeue (F_barrier 2) 0 0 F_mlock 1])]"
    by (simp add: sched3_defs eval_defs)
  from h(2) have h2: "w_oldstate (wthr st_chain 1) \<noteq> WAITING" by simp
  from e r have pc: "w_pc (wthr s' 1) = W_ret 0" by simp
  from signaled_path_waiters_count [OF r h(1) h2] pc
  have "filter (\<lambda>act. act = W_inc 1 \<or> act = W_next 1) sched_chain_exit = [W_inc 1, W_next 1]"
    by simp
  with h n v e show ?thesis by simp
qed

end
